theory Spec2Isabelle
  imports Main "HOL-Library.Word" "HOL-Library.Signed_Division"
begin

section \<open>Machine types\<close>

text \<open>
  The firmware targets the ESP32: \<open>unsigned long\<close> is 32 bits wide and its arithmetic wraps
  around, so it is a \<open>32 word\<close>.  \<open>int\<close> values (ring indices, counters, HTTP response codes)
  stay far inside the 32-bit range in every function modelled here, so they are \<open>int\<close>; the
  operator \<open>%\<close> of C++ truncates towards zero and is \<open>smod\<close>.  A \<open>float\<close> is only stored and
  copied by the code modelled here, never computed with: it is carried as its raw 32-bit
  pattern.
\<close>

type_synonym ulong = "32 word"
type_synonym cfloat = "32 word"

section \<open>Offline buffer: \<open>state_manager.h\<close>, \<open>state_manager.cpp\<close>\<close>

record SensorData =
  temperature :: cfloat
  humidity :: cfloat
  soilMoisture :: cfloat
  batteryLevel :: int
  rssi :: int
  timestamp :: ulong

record BufferedData =
  data :: SensorData
  nodeId :: string
  synced :: bool

record StateManager =
  buffer :: "BufferedData list"
  writeIndex :: int
  bufferCount :: int
  syncIndex :: int
  uniqueNodeCount :: int
  uniqueNodes :: "string list"
  uniqueNodeArraySize :: int

definition BUFFER_SIZE :: int where
  "BUFFER_SIZE = 100"

text \<open>
  The constructor sets every \<open>synced\<close> flag and every registry string; the \<open>data\<close> of a
  slot is left uninitialised, which is the parameter \<open>d0\<close> here.
\<close>

definition StateManager_init :: "SensorData \<Rightarrow> StateManager" where
  "StateManager_init d0 =
     \<lparr>buffer = replicate (nat BUFFER_SIZE) \<lparr>data = d0, nodeId = [], synced = True\<rparr>,
      writeIndex = 0,
      bufferCount = 0,
      syncIndex = 0,
      uniqueNodeCount = 0,
      uniqueNodes = replicate 20 [],
      uniqueNodeArraySize = 0\<rparr>"

text \<open>\<open>String::startsWith\<close> of the Arduino core.\<close>

definition startsWith :: "string \<Rightarrow> string \<Rightarrow> bool" where
  "startsWith s p = (if length s < length p then False else take (length p) s = p)"

text \<open>
  The test \<open>s.equals("gateway-01") || s.startsWith("gateway-")\<close>, which the source writes
  out at each of its uses.
\<close>

definition isGatewayId :: "string \<Rightarrow> bool" where
  "isGatewayId s = (s = ''gateway-01'' \<or> startsWith s ''gateway-'')"

definition getNextIndex :: "int \<Rightarrow> int" where
  "getNextIndex index = (index + 1) smod BUFFER_SIZE"

function isNodeUnique_loop :: "StateManager \<Rightarrow> string \<Rightarrow> int \<Rightarrow> bool" where
  "isNodeUnique_loop s nodeIdStr i =
     (if i < uniqueNodeArraySize s then
        (if uniqueNodes s ! nat i = nodeIdStr then False
         else isNodeUnique_loop s nodeIdStr (i + 1))
      else True)"
  by pat_completeness auto
termination
  by (relation "measure (\<lambda>(s, n, i). nat (uniqueNodeArraySize s - i))") auto

definition isNodeUnique :: "StateManager \<Rightarrow> string \<Rightarrow> bool" where
  "isNodeUnique s nodeIdStr = isNodeUnique_loop s nodeIdStr 0"

text \<open>The recount of \<open>uniqueNodeCount\<close> inside \<open>addUniqueNode\<close>.\<close>

function recount_loop :: "StateManager \<Rightarrow> int \<Rightarrow> int \<Rightarrow> int" where
  "recount_loop s i cnt =
     (if i < uniqueNodeArraySize s then
        (if \<not> isGatewayId (uniqueNodes s ! nat i) then recount_loop s (i + 1) (cnt + 1)
         else recount_loop s (i + 1) cnt)
      else cnt)"
  by pat_completeness auto
termination
  by (relation "measure (\<lambda>(s, i, c). nat (uniqueNodeArraySize s - i))") auto

definition addUniqueNode :: "StateManager \<Rightarrow> string \<Rightarrow> StateManager" where
  "addUniqueNode s nodeIdStr =
     (if isGatewayId nodeIdStr then s
      else if uniqueNodeArraySize s < 20 then
        (let s1 = s\<lparr>uniqueNodes := (uniqueNodes s)[nat (uniqueNodeArraySize s) := nodeIdStr]\<rparr>;
             s2 = s1\<lparr>uniqueNodeArraySize := uniqueNodeArraySize s1 + 1\<rparr>
         in s2\<lparr>uniqueNodeCount := recount_loop s2 0 0\<rparr>)
      else s)"

definition addSensorData :: "StateManager \<Rightarrow> SensorData \<Rightarrow> string \<Rightarrow> StateManager" where
  "addSensorData s d nodeIdStr =
     (let s1 = s\<lparr>buffer := (buffer s)[nat (writeIndex s) :=
                     \<lparr>data = d, nodeId = nodeIdStr, synced = False\<rparr>]\<rparr>;
          s2 = (if \<not> isGatewayId nodeIdStr then
                  (if isNodeUnique s1 nodeIdStr then addUniqueNode s1 nodeIdStr else s1)
                else s1);
          s3 = s2\<lparr>writeIndex := getNextIndex (writeIndex s2)\<rparr>
      in if bufferCount s3 < BUFFER_SIZE then s3\<lparr>bufferCount := bufferCount s3 + 1\<rparr> else s3)"

definition getBufferCount :: "StateManager \<Rightarrow> int" where
  "getBufferCount s = bufferCount s"

definition oldestIndex :: "StateManager \<Rightarrow> int" where
  "oldestIndex s = (writeIndex s - bufferCount s + BUFFER_SIZE) smod BUFFER_SIZE"

text \<open>
  The scan of \<open>getNextBufferedData\<close>.  The three reference parameters are written only
  when the function returns true, so the result is \<open>Some (data, nodeId, bufferIndex)\<close> for
  true and \<open>None\<close> for false.
\<close>

function getNextBufferedData_loop ::
  "StateManager \<Rightarrow> int \<Rightarrow> int \<Rightarrow> (SensorData \<times> string \<times> int) option" where
  "getNextBufferedData_loop s oldest i =
     (if i < bufferCount s then
        (let index = (oldest + i) smod BUFFER_SIZE in
         if \<not> synced (buffer s ! nat index) then
           Some (data (buffer s ! nat index), nodeId (buffer s ! nat index), index)
         else getNextBufferedData_loop s oldest (i + 1))
      else None)"
  by pat_completeness auto
termination
  by (relation "measure (\<lambda>(s, oldest, i). nat (bufferCount s - i))") auto

text \<open>
  The method is not \<open>const\<close>: it returns its result together with the object's state after
  the call.
\<close>

definition getNextBufferedData ::
  "StateManager \<Rightarrow> (SensorData \<times> string \<times> int) option \<times> StateManager" where
  "getNextBufferedData s =
     (if bufferCount s = 0 then (None, s)
      else (getNextBufferedData_loop s (oldestIndex s) 0, s))"

definition markDataAsSynced :: "StateManager \<Rightarrow> int \<Rightarrow> StateManager" where
  "markDataAsSynced s bufferIndex =
     (if bufferIndex \<ge> 0 \<and> bufferIndex < BUFFER_SIZE then
        s\<lparr>buffer := (buffer s)[nat bufferIndex := (buffer s ! nat bufferIndex)\<lparr>synced := True\<rparr>]\<rparr>
      else s)"

text \<open>
  The scan of \<open>getActiveNodeCount\<close>.  The scratch array \<open>activeNodes[20]\<close> with its fill
  count \<open>activeNodeCount\<close> is the list of the filled prefix: the count is its length, and the
  inner search loop over the prefix is list membership.
\<close>

function getActiveNodeCount_loop ::
  "StateManager \<Rightarrow> ulong \<Rightarrow> int \<Rightarrow> int \<Rightarrow> string list \<Rightarrow> string list" where
  "getActiveNodeCount_loop s cutoffTime oldest i activeNodes =
     (if i < bufferCount s then
        (let index = (oldest + i) smod BUFFER_SIZE;
             nodeIdStr = nodeId (buffer s ! nat index)
         in if isGatewayId nodeIdStr then
              getActiveNodeCount_loop s cutoffTime oldest (i + 1) activeNodes
            else if timestamp (data (buffer s ! nat index)) \<ge> cutoffTime then
              (if nodeIdStr \<notin> set activeNodes \<and> length activeNodes < 20 then
                 getActiveNodeCount_loop s cutoffTime oldest (i + 1) (activeNodes @ [nodeIdStr])
               else getActiveNodeCount_loop s cutoffTime oldest (i + 1) activeNodes)
            else getActiveNodeCount_loop s cutoffTime oldest (i + 1) activeNodes)
      else activeNodes)"
  by pat_completeness auto
termination
  by (relation "measure (\<lambda>(s, c, oldest, i, a). nat (bufferCount s - i))") auto




subsection \<open>Abstraction of the ring\<close>

text \<open>
  The array bounds and index ranges that every method relies on: the ring has \<open>BUFFER_SIZE\<close>
  slots, the write cursor is a valid index and the count saturates at the capacity.
\<close>

definition buffer_ok :: "StateManager \<Rightarrow> bool" where
  "buffer_ok s = (length (buffer s) = 100 \<and> 0 \<le> writeIndex s \<and> writeIndex s < 100
      \<and> 0 \<le> bufferCount s \<and> bufferCount s \<le> 100)"

text \<open>
  \<open>slotIndex s i\<close> is the array index the scans of \<open>getNextBufferedData\<close> and
  \<open>getActiveNodeCount\<close> visit at step \<open>i\<close>; \<open>view s\<close> lists the valid entries in the order of
  the scan, oldest first, and \<open>slots s\<close> pairs each with its array index.
\<close>

definition slotIndex :: "StateManager \<Rightarrow> nat \<Rightarrow> int" where
  "slotIndex s i = (oldestIndex s + int i) smod BUFFER_SIZE"

definition view :: "StateManager \<Rightarrow> BufferedData list" where
  "view s = map (\<lambda>i. buffer s ! nat (slotIndex s i)) [0..<nat (bufferCount s)]"

definition slots :: "StateManager \<Rightarrow> (BufferedData \<times> int) list" where
  "slots s = map (\<lambda>i. (buffer s ! nat (slotIndex s i), slotIndex s i)) [0..<nat (bufferCount s)]"

text \<open>
  The drain operation in the words of the specification: the first entry, oldest to newest,
  whose synced flag is false, with its slot index, or nothing.
\<close>

fun firstUnsynced :: "(BufferedData \<times> int) list \<Rightarrow> (SensorData \<times> string \<times> int) option" where
  "firstUnsynced [] = None"
| "firstUnsynced ((e, idx) # r) =
     (if \<not> synced e then Some (data e, nodeId e, idx) else firstUnsynced r)"

text \<open>The entry that \<open>addSensorData\<close> writes for a reading and its producer.\<close>

definition entryOf :: "SensorData \<times> string \<Rightarrow> BufferedData" where
  "entryOf p = \<lparr>data = fst p, nodeId = snd p, synced = False\<rparr>"

definition insertAll :: "StateManager \<Rightarrow> (SensorData \<times> string) list \<Rightarrow> StateManager" where
  "insertAll s xs = foldl (\<lambda>s p. addSensorData s (fst p) (snd p)) s xs"

definition lastN :: "nat \<Rightarrow> 'a list \<Rightarrow> 'a list" where
  "lastN n xs = drop (length xs - n) xs"

text \<open>
  The sync driver's use of the buffer: at most \<open>fuel\<close> rounds of \<open>getNextBufferedData\<close>
  followed by \<open>markDataAsSynced\<close> of the index it returned, stopping when it returns false.
  The result lists the acknowledged readings in the order of their acknowledgement.
\<close>

fun drain :: "nat \<Rightarrow> StateManager \<Rightarrow> (SensorData \<times> string) list \<times> StateManager" where
  "drain 0 s = ([], s)"
| "drain (Suc fuel) s =
     (case getNextBufferedData s of
        (None, s1) \<Rightarrow> ([], s1)
      | (Some (d, n, idx), s1) \<Rightarrow>
          (let (acks, s2) = drain fuel (markDataAsSynced s1 idx) in ((d, n) # acks, s2)))"


subsection \<open>Abstraction of the registry\<close>

text \<open>The filled prefix of \<open>uniqueNodes\<close>, and the bounds of the array and its fill count.\<close>

definition registry :: "StateManager \<Rightarrow> string list" where
  "registry s = take (nat (uniqueNodeArraySize s)) (uniqueNodes s)"

definition registry_ok :: "StateManager \<Rightarrow> bool" where
  "registry_ok s = (length (uniqueNodes s) = 20 \<and> 0 \<le> uniqueNodeArraySize s
      \<and> uniqueNodeArraySize s \<le> 20 \<and> distinct (registry s)
      \<and> list_all (\<lambda>n. \<not> isGatewayId n) (registry s)
      \<and> uniqueNodeCount s = int (length (registry s)))"

section \<open>Delivery client: \<open>backend_client.h\<close>, \<open>backend_client.cpp\<close>\<close>

record BackendClient =
  backendUrl :: string
  backendReachable :: bool
  lastConnectivityCheck :: ulong

definition MAX_RETRIES :: int where
  "MAX_RETRIES = 3"

definition RETRY_DELAY :: ulong where
  "RETRY_DELAY = 200"

definition CONNECTIVITY_CHECK_INTERVAL :: ulong where
  "CONNECTIVITY_CHECK_INTERVAL = 5000"

text \<open>
  What a call does to the outside world: a POST of the payload to the data path, a GET of
  the health path, a call of \<open>delay\<close>.
\<close>

datatype net_event = HttpPost | HttpGet | Delay ulong

text \<open>
  \<open>performRequest\<close>: \<open>httpResponseCode\<close> is what \<open>http.POST(payload)\<close> returned (the HTTP
  status, or a value \<open>\<le> 0\<close> when no response arrived).  The method changes no field.
\<close>

definition performRequest :: "int \<Rightarrow> bool" where
  "performRequest httpResponseCode = (httpResponseCode > 0 \<and> httpResponseCode < 400)"

text \<open>
  The retry loop of \<open>sendSensorData\<close>.  \<open>post k\<close> is the response code the \<open>k\<close>-th POST of
  this call receives, counted from 0; the payload is the same at every attempt.  The result
  is the return value, the client after the call and the trace of requests and delays.
\<close>

function sendSensorData_loop ::
  "(nat \<Rightarrow> int) \<Rightarrow> BackendClient \<Rightarrow> int \<Rightarrow> net_event list
     \<Rightarrow> bool \<times> BackendClient \<times> net_event list" where
  "sendSensorData_loop post c attempt tr =
     (if attempt < MAX_RETRIES then
        (if performRequest (post (nat attempt)) then
           (True, c\<lparr>backendReachable := True\<rparr>, tr @ [HttpPost])
         else if attempt < MAX_RETRIES - 1 then
           sendSensorData_loop post c (attempt + 1) (tr @ [HttpPost, Delay RETRY_DELAY])
         else sendSensorData_loop post c (attempt + 1) (tr @ [HttpPost]))
      else (False, c\<lparr>backendReachable := False\<rparr>, tr))"
  by pat_completeness auto
termination
  by (relation "measure (\<lambda>(post, c, attempt, tr). nat (MAX_RETRIES - attempt))") auto

definition sendSensorData ::
  "(nat \<Rightarrow> int) \<Rightarrow> BackendClient \<Rightarrow> bool \<times> BackendClient \<times> net_event list" where
  "sendSensorData post c = sendSensorData_loop post c 0 []"

text \<open>The number of requests in a trace.\<close>

definition attempts :: "net_event list \<Rightarrow> nat" where
  "attempts tr = length (filter (\<lambda>e. e = HttpPost) tr)"

text \<open>
  \<open>checkBackendConnectivity\<close>: \<open>currentTime\<close> is the reading of \<open>millis()\<close> at entry and
  \<open>responseCode\<close> what \<open>testClient.GET()\<close> returns when the probe is made.
\<close>

definition checkBackendConnectivity :: "BackendClient \<Rightarrow> ulong \<Rightarrow> int \<Rightarrow> BackendClient" where
  "checkBackendConnectivity c currentTime responseCode =
     (if currentTime - lastConnectivityCheck c < CONNECTIVITY_CHECK_INTERVAL then c
      else
        (let c1 = c\<lparr>lastConnectivityCheck := currentTime\<rparr>;
             c2 = c1\<lparr>backendReachable := (responseCode = 200)\<rparr>
         in if responseCode > 0 then c2 else c2\<lparr>backendReachable := False\<rparr>))"

text \<open>Whether the call makes the probe at all (it is rate-limited).\<close>

definition probeMade :: "BackendClient \<Rightarrow> ulong \<Rightarrow> bool" where
  "probeMade c currentTime = (\<not> currentTime - lastConnectivityCheck c < CONNECTIVITY_CHECK_INTERVAL)"

section \<open>Connectivity state machine: \<open>network_manager.h\<close>, \<open>network_manager.cpp\<close>\<close>

datatype NetworkState = INIT | STA_CONNECTING | ONLINE | AP_MODE

text \<open>The status and mode enumerations of the WiFi driver, and the calls made to it.\<close>

datatype wl_status_t =
  WL_NO_SHIELD | WL_IDLE_STATUS | WL_NO_SSID_AVAIL | WL_SCAN_COMPLETED | WL_CONNECTED
  | WL_CONNECT_FAILED | WL_CONNECTION_LOST | WL_DISCONNECTED

datatype wifi_mode_t = WIFI_OFF | WIFI_STA | WIFI_AP | WIFI_AP_STA

datatype wifi_call =
  WiFi_mode wifi_mode_t | WiFi_begin string string | WiFi_softAP string string
  | WiFi_softAPdisconnect bool

text \<open>
  The fields of the class, and \<open>wifiCalls\<close>: the calls the object has made to the WiFi driver
  so far, in order.
\<close>

record GatewayNetworkManager =
  currentState :: NetworkState
  lastKnownMode :: NetworkState
  internetAvailable :: bool
  staConnectStartTime :: ulong
  lastInternetCheck :: ulong
  lastSTARetryAttempt :: ulong
  lastStateTransitionTime :: ulong
  staConnectionInProgress :: bool
  staSSID :: string
  staPassword :: string
  lastSSID :: string
  wifiCalls :: "wifi_call list"

definition STA_CONNECT_TIMEOUT :: ulong where
  "STA_CONNECT_TIMEOUT = 10000"

definition INTERNET_CHECK_INTERVAL :: ulong where
  "INTERNET_CHECK_INTERVAL = 10000"

definition STA_RETRY_INTERVAL :: ulong where
  "STA_RETRY_INTERVAL = 30000"

definition AP_SSID :: string where
  "AP_SSID = ''Greenhouse-Gateway''"

definition AP_PASSWORD :: string where
  "AP_PASSWORD = ''12345678''"

definition GatewayNetworkManager_init :: GatewayNetworkManager where
  "GatewayNetworkManager_init =
     \<lparr>currentState = INIT, lastKnownMode = INIT, internetAvailable = False,
      staConnectStartTime = 0, lastInternetCheck = 0, lastSTARetryAttempt = 0,
      lastStateTransitionTime = 0, staConnectionInProgress = False,
      staSSID = [], staPassword = [], lastSSID = [], wifiCalls = []\<rparr>"

definition setCredentials :: "GatewayNetworkManager \<Rightarrow> string \<Rightarrow> string \<Rightarrow> GatewayNetworkManager" where
  "setCredentials s ssid password = s\<lparr>staSSID := ssid, staPassword := password\<rparr>"

text \<open>\<open>t\<close> is the reading of \<open>millis()\<close> the function stores when it changes the state.\<close>

definition transitionToState ::
  "GatewayNetworkManager \<Rightarrow> NetworkState \<Rightarrow> ulong \<Rightarrow> GatewayNetworkManager" where
  "transitionToState s newState t =
     (if newState \<noteq> currentState s then
        s\<lparr>lastKnownMode := currentState s, currentState := newState,
          lastStateTransitionTime := t\<rparr>
      else s)"

definition clearSSID :: "GatewayNetworkManager \<Rightarrow> GatewayNetworkManager" where
  "clearSSID s = (if length (lastSSID s) > 0 then s\<lparr>lastSSID := []\<rparr> else s)"

definition startAPMode :: "GatewayNetworkManager \<Rightarrow> ulong \<Rightarrow> GatewayNetworkManager" where
  "startAPMode s t =
     (let s1 = clearSSID s;
          s2 = s1\<lparr>wifiCalls := wifiCalls s1 @ [WiFi_mode WIFI_AP_STA, WiFi_softAP AP_SSID AP_PASSWORD]\<rparr>;
          s3 = transitionToState s2 AP_MODE t;
          s4 = s3\<lparr>internetAvailable := False\<rparr>
      in s4\<lparr>staConnectionInProgress := False\<rparr>)"

definition attemptSTAConnection :: "GatewayNetworkManager \<Rightarrow> ulong \<Rightarrow> GatewayNetworkManager" where
  "attemptSTAConnection s t =
     (if length (staSSID s) = 0 then startAPMode s t
      else
        (let s1 = clearSSID s;
             s2 = s1\<lparr>wifiCalls := wifiCalls s1 @ [WiFi_begin (staSSID s1) (staPassword s1)]\<rparr>
         in s2\<lparr>lastSSID := staSSID s2\<rparr>))"

text \<open>
  The readings of \<open>millis()\<close> that \<open>begin\<close> stores: at the transition to \<open>INIT\<close>, at the
  transition to \<open>STA_CONNECTING\<close>, for \<open>staConnectStartTime\<close>, and at the transition to
  \<open>AP_MODE\<close> when there are no credentials.
\<close>

record BeginClock =
  t_init :: ulong
  t_sta :: ulong
  t_start :: ulong
  t_ap :: ulong

definition begin_nm :: "GatewayNetworkManager \<Rightarrow> BeginClock \<Rightarrow> GatewayNetworkManager" where
  "begin_nm s clk =
     (let s1 = transitionToState s INIT (t_init clk);
          s2 = s1\<lparr>wifiCalls := wifiCalls s1 @ [WiFi_mode WIFI_STA]\<rparr>;
          s3 = transitionToState s2 STA_CONNECTING (t_sta clk);
          s4 = s3\<lparr>staConnectStartTime := t_start clk\<rparr>;
          s5 = s4\<lparr>staConnectionInProgress := True\<rparr>
      in attemptSTAConnection s5 (t_ap clk))"

text \<open>
  What one call of \<open>update\<close> reads from outside: \<open>millis()\<close> at entry, when a transition is
  stored and when the internet probe starts; the driver's status, mode and SSID; and whether
  the probe connection of \<open>testInternetConnection\<close> succeeds.
\<close>

record UpdateEnv =
  currentTime :: ulong
  transitionTime :: ulong
  probeTime :: ulong
  wifiStatus :: wl_status_t
  wifiMode :: wifi_mode_t
  wifiSSID :: string
  probeConnects :: bool

definition testInternetConnection :: "UpdateEnv \<Rightarrow> bool" where
  "testInternetConnection env = (if probeConnects env then True else False)"

definition checkInternetConnectivity ::
  "GatewayNetworkManager \<Rightarrow> UpdateEnv \<Rightarrow> GatewayNetworkManager" where
  "checkInternetConnectivity s env =
     (let s1 = s\<lparr>lastInternetCheck := probeTime env\<rparr>
      in s1\<lparr>internetAvailable := testInternetConnection env\<rparr>)"

definition update_STA_CONNECTING ::
  "GatewayNetworkManager \<Rightarrow> UpdateEnv \<Rightarrow> GatewayNetworkManager" where
  "update_STA_CONNECTING s env =
     (if wifiStatus env = WL_CONNECTED then
        (let s1 = (if wifiMode env \<noteq> WIFI_STA then
                     clearSSID (s\<lparr>wifiCalls := wifiCalls s @
                                   [WiFi_mode WIFI_STA, WiFi_softAPdisconnect True]\<rparr>)
                   else s);
             s2 = (if wifiSSID env \<noteq> lastSSID s1 then s1\<lparr>lastSSID := wifiSSID env\<rparr> else s1);
             s3 = transitionToState s2 ONLINE (transitionTime env);
             s4 = s3\<lparr>staConnectionInProgress := False\<rparr>
         in checkInternetConnectivity s4 env)
      else if currentTime env - staConnectStartTime s > STA_CONNECT_TIMEOUT then
        (let s1 = startAPMode s (transitionTime env)
         in s1\<lparr>staConnectionInProgress := False\<rparr>)
      else s)"

definition update_ONLINE ::
  "GatewayNetworkManager \<Rightarrow> UpdateEnv \<Rightarrow> GatewayNetworkManager" where
  "update_ONLINE s env =
     (if wifiStatus env \<noteq> WL_CONNECTED then
        startAPMode (transitionToState s AP_MODE (transitionTime env)) (transitionTime env)
      else if currentTime env - lastInternetCheck s > INTERNET_CHECK_INTERVAL then
        checkInternetConnectivity s env
      else s)"

definition update_AP_MODE ::
  "GatewayNetworkManager \<Rightarrow> UpdateEnv \<Rightarrow> GatewayNetworkManager" where
  "update_AP_MODE s env =
     (let s1 = (if length (staSSID s) > 0 \<and> \<not> staConnectionInProgress s then
                  (if currentTime env - lastSTARetryAttempt s > STA_RETRY_INTERVAL then
                     s\<lparr>lastSTARetryAttempt := currentTime env,
                       wifiCalls := wifiCalls s @
                         [WiFi_mode WIFI_AP_STA, WiFi_begin (staSSID s) (staPassword s)],
                       staConnectStartTime := currentTime env,
                       staConnectionInProgress := True\<rparr>
                   else s)
                else s)
      in if staConnectionInProgress s1 then
           (if wifiStatus env = WL_CONNECTED then
              (let s2 = clearSSID (s1\<lparr>wifiCalls := wifiCalls s1 @
                                       [WiFi_mode WIFI_STA, WiFi_softAPdisconnect True]\<rparr>);
                   s3 = transitionToState s2 ONLINE (transitionTime env);
                   s4 = s3\<lparr>staConnectionInProgress := False\<rparr>
               in checkInternetConnectivity s4 env)
            else if currentTime env - staConnectStartTime s1 > STA_CONNECT_TIMEOUT then
              s1\<lparr>staConnectionInProgress := False\<rparr>
            else s1)
         else s1)"

text \<open>\<open>update\<close>: the \<open>switch\<close> over the current state.\<close>

definition update :: "GatewayNetworkManager \<Rightarrow> UpdateEnv \<Rightarrow> GatewayNetworkManager" where
  "update s env =
     (case currentState s of
        INIT \<Rightarrow> s
      | STA_CONNECTING \<Rightarrow> update_STA_CONNECTING s env
      | ONLINE \<Rightarrow> update_ONLINE s env
      | AP_MODE \<Rightarrow> update_AP_MODE s env)"

text \<open>A run of the machine: one call of \<open>update\<close> for each element of the list, in order.\<close>

definition run :: "GatewayNetworkManager \<Rightarrow> UpdateEnv list \<Rightarrow> GatewayNetworkManager" where
  "run s envs = foldl update s envs"

section \<open>Sample inputs\<close>

text \<open>A reading taken at time \<open>t\<close>, used where a property is instantiated.\<close>

definition sampleReading :: "ulong \<Rightarrow> SensorData" where
  "sampleReading t =
     \<lparr>temperature = 0, humidity = 0, soilMoisture = 0, batteryLevel = 100, rssi = - 60,
      timestamp = t\<rparr>"

text \<open>
  A machine that has been started with credentials at time 1000, and what a call of
  \<open>update\<close> reads at time \<open>t\<close> while the driver reports \<open>st\<close>.
\<close>

definition sampleConnecting :: GatewayNetworkManager where
  "sampleConnecting =
     begin_nm (setCredentials GatewayNetworkManager_init ''greenhouse'' ''secret'')
       \<lparr>t_init = 1000, t_sta = 1000, t_start = 1000, t_ap = 1000\<rparr>"

definition sampleEnv :: "ulong \<Rightarrow> wl_status_t \<Rightarrow> UpdateEnv" where
  "sampleEnv t st =
     \<lparr>currentTime = t, transitionTime = t, probeTime = t, wifiStatus = st,
      wifiMode = WIFI_STA, wifiSSID = ''greenhouse'', probeConnects = False\<rparr>"

text \<open>A buffer whose registry holds 20 identifiers.\<close>

definition sampleFullRegistry :: StateManager where
  "sampleFullRegistry =
     (StateManager_init (sampleReading 0))
       \<lparr>uniqueNodeCount := 20,
        uniqueNodes := [''node-01'', ''node-02'', ''node-03'', ''node-04'', ''node-05'',
                        ''node-06'', ''node-07'', ''node-08'', ''node-09'', ''node-10'',
                        ''node-11'', ''node-12'', ''node-13'', ''node-14'', ''node-15'',
                        ''node-16'', ''node-17'', ''node-18'', ''node-19'', ''node-20''],
        uniqueNodeArraySize := 20\<rparr>"


section \<open>Properties\<close>

declare isNodeUnique_loop.simps [simp del] recount_loop.simps [simp del]
  getNextBufferedData_loop.simps [simp del] getActiveNodeCount_loop.simps [simp del]
  sendSensorData_loop.simps [simp del]

subsection \<open>The ring of the offline buffer\<close>

lemma smod_nonneg: "0 \<le> a \<Longrightarrow> a smod (100::int) = a mod 100"
  by (simp add: smod_int_alt_def sgn_if)

lemma ring_a1:
  fixes w c i :: int
  assumes "0 \<le> w" "w < 100" "0 \<le> i" "i < c" "c < 100"
  shows "(w - c + 100 + i) mod 100 \<noteq> w"
proof (cases "0 \<le> w - c + i")
  case True
  have "(w - c + 100 + i) mod 100 = ((w - c + i) + 100) mod 100"
    by (simp add: algebra_simps)
  also have "\<dots> = (w - c + i) mod 100" by (rule mod_add_self2)
  also have "\<dots> = w - c + i" using True assms by (intro mod_pos_pos_trivial) simp_all
  finally show ?thesis using assms by simp
next
  case False
  then have "(w - c + 100 + i) mod 100 = w - c + 100 + i"
    using assms by (simp add: mod_pos_pos_trivial)
  then show ?thesis using assms by simp
qed

lemma ring_a2:
  fixes w c i :: int
  shows "((w + 1) mod 100 - (c + 1) + 100 + i) mod 100 = (w - c + 100 + i) mod 100"
proof -
  have "((w + 1) mod 100 - (c + 1) + 100 + i) mod 100 = ((w + 1) mod 100 + (100 + i - (c + 1))) mod 100"
    by (simp add: algebra_simps)
  also have "\<dots> = ((w + 1) + (100 + i - (c + 1))) mod 100"
    by (rule mod_add_left_eq)
  also have "\<dots> = (w - c + 100 + i) mod 100" by (simp add: algebra_simps)
  finally show ?thesis .
qed

lemma ring_a3:
  fixes w c :: int
  assumes "0 \<le> w" "w < 100"
  shows "(w - c + 100 + c) mod 100 = w"
  using assms by simp

lemma ring_a4:
  fixes w i :: int
  shows "((w + 1) mod 100 - 100 + 100 + i) mod 100 = (w - 100 + 100 + (1 + i)) mod 100"
proof -
  have "((w + 1) mod 100 - 100 + 100 + i) mod 100 = ((w + 1) mod 100 + i) mod 100" by simp
  also have "\<dots> = ((w + 1) + i) mod 100" by (rule mod_add_left_eq)
  finally show ?thesis by (simp add: algebra_simps)
qed

lemma addUniqueNode_frame:
  "buffer (addUniqueNode s n) = buffer s"
  "writeIndex (addUniqueNode s n) = writeIndex s"
  "bufferCount (addUniqueNode s n) = bufferCount s"
  by (simp_all add: addUniqueNode_def Let_def)

lemma addSensorData_buffer:
  "buffer (addSensorData s d n) = (buffer s)[nat (writeIndex s) := \<lparr>data = d, nodeId = n, synced = False\<rparr>]"
  by (simp add: addSensorData_def Let_def addUniqueNode_frame)

lemma addSensorData_writeIndex:
  "writeIndex (addSensorData s d n) = (writeIndex s + 1) smod 100"
  by (simp add: addSensorData_def Let_def addUniqueNode_frame getNextIndex_def BUFFER_SIZE_def)

lemma addSensorData_bufferCount:
  "bufferCount (addSensorData s d n) = (if bufferCount s < 100 then bufferCount s + 1 else bufferCount s)"
  by (simp add: addSensorData_def Let_def addUniqueNode_frame BUFFER_SIZE_def)

lemma buffer_ok_add: "buffer_ok s \<Longrightarrow> buffer_ok (addSensorData s d n)"
  unfolding buffer_ok_def
  by (simp add: addSensorData_buffer addSensorData_writeIndex addSensorData_bufferCount smod_nonneg)

lemma slotIndex_eq:
  assumes "buffer_ok s"
  shows "slotIndex s i = (writeIndex s - bufferCount s + 100 + int i) mod 100"
proof -
  have a: "0 \<le> writeIndex s - bufferCount s + 100" using assms by (simp add: buffer_ok_def)
  have "slotIndex s i = ((writeIndex s - bufferCount s + 100) mod 100 + int i) mod 100"
    unfolding slotIndex_def oldestIndex_def BUFFER_SIZE_def
    using a by (simp add: smod_nonneg)
  also have "\<dots> = (writeIndex s - bufferCount s + 100 + int i) mod 100"
    by (rule mod_add_left_eq)
  finally show ?thesis .
qed

lemma slotIndex_range: "buffer_ok s \<Longrightarrow> 0 \<le> slotIndex s i \<and> slotIndex s i < 100"
  by (simp add: slotIndex_eq)


lemma add_writeIndex_ok:
  assumes "buffer_ok s"
  shows "writeIndex (addSensorData s d n) = (writeIndex s + 1) mod 100"
proof -
  have "0 \<le> writeIndex s + 1" using assms by (simp add: buffer_ok_def)
  then show ?thesis by (simp add: addSensorData_writeIndex smod_nonneg)
qed

lemma slotIndex_add_notfull:
  assumes "buffer_ok s" "bufferCount s < 100"
  shows "slotIndex (addSensorData s d n) i = slotIndex s i"
proof -
  have bc: "bufferCount (addSensorData s d n) = bufferCount s + 1"
    using assms(2) by (simp add: addSensorData_bufferCount)
  show ?thesis
    unfolding slotIndex_eq[OF buffer_ok_add[OF assms(1)]] slotIndex_eq[OF assms(1)]
      add_writeIndex_ok[OF assms(1)] bc
    by (rule ring_a2)
qed

lemma slotIndex_add_full:
  assumes "buffer_ok s" "bufferCount s = 100"
  shows "slotIndex (addSensorData s d n) i = slotIndex s (Suc i)"
proof -
  have bc: "bufferCount (addSensorData s d n) = 100"
    using assms(2) by (simp add: addSensorData_bufferCount)
  show ?thesis
    unfolding slotIndex_eq[OF buffer_ok_add[OF assms(1)]] slotIndex_eq[OF assms(1)]
      add_writeIndex_ok[OF assms(1)] bc assms(2) of_nat_Suc
    by (rule ring_a4)
qed

lemma slotIndex_ne_write:
  assumes "buffer_ok s" "int i < bufferCount s" "bufferCount s < 100"
  shows "nat (slotIndex s i) \<noteq> nat (writeIndex s)"
proof -
  have b: "0 \<le> writeIndex s" "writeIndex s < 100" "bufferCount s < 100"
    using assms by (simp_all add: buffer_ok_def)
  have "(writeIndex s - bufferCount s + 100 + int i) mod 100 \<noteq> writeIndex s"
    using b(1) b(2) _ assms(2) b(3) by (rule ring_a1) simp
  then have "slotIndex s i \<noteq> writeIndex s"
    unfolding slotIndex_eq[OF assms(1)] .
  moreover have "0 \<le> slotIndex s i"
    using assms(1) by (simp add: slotIndex_range)
  ultimately show ?thesis using b(1) by (simp add: nat_eq_iff)
qed

lemma slotIndex_count:
  assumes "buffer_ok s"
  shows "slotIndex s (nat (bufferCount s)) = writeIndex s"
proof -
  have b: "0 \<le> writeIndex s" "writeIndex s < 100" "0 \<le> bufferCount s"
    using assms(1) by (simp_all add: buffer_ok_def)
  have e: "int (nat (bufferCount s)) = bufferCount s" using b(3) by simp
  show ?thesis unfolding slotIndex_eq[OF assms] e using b(1) b(2) by (rule ring_a3)
qed

lemma length_view: "length (view s) = nat (bufferCount s)"
  by (simp add: view_def)

lemma view_nth: "i < nat (bufferCount s) \<Longrightarrow> view s ! i = buffer s ! nat (slotIndex s i)"
  by (simp add: view_def)

lemma view_add_notfull:
  assumes "buffer_ok s" "bufferCount s < 100"
  shows "view (addSensorData s d n) = view s @ [\<lparr>data = d, nodeId = n, synced = False\<rparr>]"
    (is "?L = ?R")
proof (rule nth_equalityI)
  have bc: "bufferCount (addSensorData s d n) = bufferCount s + 1"
    using assms(2) by (simp add: addSensorData_bufferCount)
  have b: "0 \<le> writeIndex s" "writeIndex s < 100" "0 \<le> bufferCount s" "length (buffer s) = 100"
    using assms by (simp_all add: buffer_ok_def)
  have len: "length ?L = Suc (nat (bufferCount s))"
    using b(3) by (simp add: length_view bc nat_add_distrib)
  show "length ?L = length ?R" unfolding len by (simp add: length_view)
  fix i assume "i < length ?L"
  then have i: "i < Suc (nat (bufferCount s))" by (simp only: len)
  then have i': "i < nat (bufferCount (addSensorData s d n))" using len by (simp add: length_view)
  have L: "?L ! i = (buffer s)[nat (writeIndex s) := \<lparr>data = d, nodeId = n, synced = False\<rparr>] ! nat (slotIndex s i)"
    by (simp only: view_nth[OF i'] addSensorData_buffer slotIndex_add_notfull[OF assms])
  show "?L ! i = ?R ! i"
  proof (cases "i < nat (bufferCount s)")
    case True
    then have "int i < bufferCount s" by simp
    then have ne: "nat (slotIndex s i) \<noteq> nat (writeIndex s)"
      using assms by (intro slotIndex_ne_write)
    have "?L ! i = buffer s ! nat (slotIndex s i)"
      unfolding L using ne by (simp add: nth_list_update_neq)
    also have "\<dots> = view s ! i" using True by (simp add: view_nth)
    also have "\<dots> = ?R ! i" using True by (simp add: nth_append length_view)
    finally show ?thesis .
  next
    case False
    then have e: "i = nat (bufferCount s)" using i by simp
    have "slotIndex s i = writeIndex s" unfolding e using assms(1) by (rule slotIndex_count)
    then have "?L ! i = \<lparr>data = d, nodeId = n, synced = False\<rparr>"
      unfolding L using b by simp
    also have "\<dots> = ?R ! i" using e by (simp add: nth_append length_view)
    finally show ?thesis .
  qed
qed

lemma slotIndex_full_zero:
  assumes "buffer_ok s" "bufferCount s = 100"
  shows "slotIndex s 0 = writeIndex s"
proof -
  have b: "0 \<le> writeIndex s" "writeIndex s < 100"
    using assms(1) by (simp_all add: buffer_ok_def)
  show ?thesis unfolding slotIndex_eq[OF assms(1)] assms(2) using b by simp
qed

lemma slotIndex_full_99:
  assumes "buffer_ok s" "bufferCount s = 100"
  shows "slotIndex s 100 = writeIndex s"
proof -
  have b: "0 \<le> writeIndex s" "writeIndex s < 100"
    using assms(1) by (simp_all add: buffer_ok_def)
  show ?thesis unfolding slotIndex_eq[OF assms(1)] assms(2) using b by simp
qed

lemma ring_inj:
  fixes b i j :: int
  assumes "(b + i) mod 100 = (b + j) mod 100" "0 \<le> i" "i < 100" "0 \<le> j" "j < 100"
  shows "i = j"
proof -
  have "100 dvd (b + i) - (b + j)" using assms(1) by (simp only: mod_eq_dvd_iff)
  then have "100 dvd i - j" by simp
  then obtain k where k: "i - j = 100 * k" ..
  have "- 100 < 100 * k" "100 * k < 100" using assms(2-5) k by linarith+
  then have "k = 0" by linarith
  then show ?thesis using k by simp
qed

lemma slotIndex_inj:
  assumes "buffer_ok s" "i < 100" "j < 100" "slotIndex s i = slotIndex s j"
  shows "i = j"
proof -
  have "int i = int j"
    using assms(4) unfolding slotIndex_eq[OF assms(1)]
    by (rule ring_inj) (use assms(2,3) in simp_all)
  then show ?thesis by simp
qed

lemma view_add_full:
  assumes "buffer_ok s" "bufferCount s = 100"
  shows "view (addSensorData s d n) = tl (view s) @ [\<lparr>data = d, nodeId = n, synced = False\<rparr>]"
    (is "?L = ?R")
proof (rule nth_equalityI)
  have bc: "bufferCount (addSensorData s d n) = 100"
    using assms(2) by (simp add: addSensorData_bufferCount)
  have b: "0 \<le> writeIndex s" "writeIndex s < 100" "length (buffer s) = 100"
    using assms by (simp_all add: buffer_ok_def)
  have len: "length ?L = 100" by (simp add: length_view bc)
  have lv: "length (view s) = 100" by (simp add: length_view assms(2))
  show "length ?L = length ?R" unfolding len by (simp add: lv)
  fix i assume "i < length ?L"
  then have i: "i < 100" by (simp only: len)
  then have i': "i < nat (bufferCount (addSensorData s d n))" by (simp add: bc)
  have L: "?L ! i = (buffer s)[nat (writeIndex s) := \<lparr>data = d, nodeId = n, synced = False\<rparr>] ! nat (slotIndex s (Suc i))"
    by (simp only: view_nth[OF i'] addSensorData_buffer slotIndex_add_full[OF assms])
  show "?L ! i = ?R ! i"
  proof (cases "i < 99")
    case True
    have "slotIndex s (Suc i) \<noteq> slotIndex s 0"
      using slotIndex_inj[OF assms(1), of "Suc i" 0] True by auto
    then have "slotIndex s (Suc i) \<noteq> writeIndex s"
      unfolding slotIndex_full_zero[OF assms] .
    moreover have "0 \<le> slotIndex s (Suc i)" using assms(1) by (simp add: slotIndex_range)
    ultimately have ne: "nat (slotIndex s (Suc i)) \<noteq> nat (writeIndex s)"
      using b(1) by (simp add: nat_eq_iff)
    have "?L ! i = buffer s ! nat (slotIndex s (Suc i))"
      unfolding L using ne by (simp add: nth_list_update_neq)
    also have "\<dots> = view s ! Suc i" using True by (simp add: view_nth assms(2))
    also have "\<dots> = tl (view s) ! i" using True lv by (simp add: nth_tl)
    also have "\<dots> = ?R ! i" using True lv by (simp add: nth_append)
    finally show ?thesis .
  next
    case False
    then have e: "i = 99" using i by simp
    have "slotIndex s (Suc i) = writeIndex s" unfolding e using slotIndex_full_99[OF assms] by simp
    then have "?L ! i = \<lparr>data = d, nodeId = n, synced = False\<rparr>"
      unfolding L using b by simp
    also have "\<dots> = ?R ! i" using e lv by (simp add: nth_append)
    finally show ?thesis .
  qed
qed

lemma view_add:
  assumes "buffer_ok s"
  shows "view (addSensorData s d n) = lastN 100 (view s @ [entryOf (d, n)])"
proof (cases "bufferCount s < 100")
  case True
  have "0 \<le> bufferCount s" using assms by (simp add: buffer_ok_def)
  then have "length (view s) < 100" using True by (simp add: length_view)
  then show ?thesis
    by (simp add: view_add_notfull[OF assms True] lastN_def entryOf_def)
next
  case False
  then have c: "bufferCount s = 100" using assms by (simp add: buffer_ok_def)
  have l: "length (view s) = 100" by (simp add: length_view c)
  then have "drop 1 (view s) = tl (view s)" by (simp add: drop_Suc)
  then show ?thesis
    by (simp add: view_add_full[OF assms c] lastN_def entryOf_def l)
qed

lemma lastN_lastN_append: "lastN n (lastN n xs @ ys) = lastN n (xs @ ys)"
proof (cases "length xs \<le> n")
  case True
  then show ?thesis by (simp add: lastN_def)
next
  case False
  then show ?thesis by (simp add: lastN_def ac_simps)
qed

lemma insertAll_Nil: "insertAll s [] = s"
  by (simp add: insertAll_def)

lemma insertAll_Cons: "insertAll s (x # xs) = insertAll (addSensorData s (fst x) (snd x)) xs"
  by (simp add: insertAll_def)

lemma insertAll_snoc: "insertAll s (xs @ [x]) = addSensorData (insertAll s xs) (fst x) (snd x)"
  by (simp add: insertAll_def)

lemma buffer_ok_insertAll: "buffer_ok s \<Longrightarrow> buffer_ok (insertAll s xs)"
  by (induction xs arbitrary: s) (simp_all add: insertAll_Nil insertAll_Cons buffer_ok_add)

lemma view_insertAll:
  assumes "buffer_ok s"
  shows "view (insertAll s xs) = lastN 100 (view s @ map entryOf xs)"
proof (induction xs rule: rev_induct)
  case Nil
  have "length (view s) \<le> 100" using assms by (auto simp: length_view buffer_ok_def)
  then show ?case by (simp add: insertAll_Nil lastN_def)
next
  case (snoc x xs)
  have "view (insertAll s (xs @ [x])) = lastN 100 (view (insertAll s xs) @ [entryOf x])"
    unfolding insertAll_snoc using view_add[OF buffer_ok_insertAll[OF assms], of xs "fst x" "snd x"]
    by simp
  also have "\<dots> = lastN 100 (lastN 100 (view s @ map entryOf xs) @ [entryOf x])"
    by (simp only: snoc.IH)
  also have "\<dots> = lastN 100 ((view s @ map entryOf xs) @ [entryOf x])"
    by (rule lastN_lastN_append)
  finally show ?case by simp
qed

lemma bufferCount_insertAll:
  assumes "buffer_ok s"
  shows "bufferCount (insertAll s xs) = min 100 (bufferCount s + int (length xs))"
proof -
  have "length (view (insertAll s xs)) = min 100 (length (view s) + length xs)"
    unfolding view_insertAll[OF assms] by (simp add: lastN_def)
  moreover have "0 \<le> bufferCount (insertAll s xs)" "0 \<le> bufferCount s"
    using buffer_ok_insertAll[OF assms, of xs] assms by (simp_all add: buffer_ok_def)
  ultimately show ?thesis by (simp add: length_view)
qed

lemma view_overwrite:
  assumes "buffer_ok s" "length xs = 100 + k"
  shows "view (insertAll s xs) = map entryOf (drop k xs)"
proof -
  have "length (view s @ map entryOf xs) - 100 = length (view s) + k"
    using assms(2) by simp
  then have "lastN 100 (view s @ map entryOf xs) = drop (length (view s) + k) (view s @ map entryOf xs)"
    by (simp only: lastN_def)
  also have "\<dots> = map entryOf (drop k xs)" by (simp add: drop_map)
  finally show ?thesis by (simp only: view_insertAll[OF assms(1)])
qed

lemma firstUnsynced_map:
  "firstUnsynced (map (\<lambda>j. (f j, g j)) js) =
     map_option (\<lambda>j. (data (f j), nodeId (f j), g j)) (find (\<lambda>j. \<not> synced (f j)) js)"
  by (induction js) simp_all

lemma loop_firstUnsynced:
  "0 \<le> i \<Longrightarrow> getNextBufferedData_loop s (oldestIndex s) i =
     firstUnsynced (map (\<lambda>j. (buffer s ! nat (slotIndex s j), slotIndex s j))
                      [nat i..<nat (bufferCount s)])"
proof (induction s "oldestIndex s" i rule: getNextBufferedData_loop.induct)
  case (1 s i)
  show ?case
  proof (cases "i < bufferCount s")
    case True
    have upt: "[nat i..<nat (bufferCount s)] = nat i # [nat (i + 1)..<nat (bufferCount s)]"
      using True "1.prems" by (simp add: upt_conv_Cons nat_add_distrib)
    have si: "slotIndex s (nat i) = (oldestIndex s + i) smod BUFFER_SIZE"
      using "1.prems" by (simp add: slotIndex_def)
    show ?thesis
    proof (cases "synced (buffer s ! nat ((oldestIndex s + i) smod BUFFER_SIZE))")
      case False
      then show ?thesis using True
        by (subst getNextBufferedData_loop.simps) (simp add: upt si Let_def)
    next
      case s: True
      have "getNextBufferedData_loop s (oldestIndex s) (i + 1) =
            firstUnsynced (map (\<lambda>j. (buffer s ! nat (slotIndex s j), slotIndex s j))
                      [nat (i + 1)..<nat (bufferCount s)])"
        using "1.hyps"[OF True refl] s "1.prems" by simp
      then show ?thesis using True s
        by (subst getNextBufferedData_loop.simps) (simp add: upt si Let_def)
    qed
  next
    case False
    then show ?thesis
      by (subst getNextBufferedData_loop.simps) simp
  qed
qed

lemma getNext_firstUnsynced: "fst (getNextBufferedData s) = firstUnsynced (slots s)"
proof (cases "bufferCount s = 0")
  case True
  then show ?thesis by (simp add: getNextBufferedData_def slots_def)
next
  case False
  then show ?thesis
    using loop_firstUnsynced[of 0 s] by (simp add: getNextBufferedData_def slots_def)
qed

lemma getNext_state: "snd (getNextBufferedData s) = s"
  by (simp add: getNextBufferedData_def)

lemma mark_frame:
  "writeIndex (markDataAsSynced s j) = writeIndex s"
  "bufferCount (markDataAsSynced s j) = bufferCount s"
  "syncIndex (markDataAsSynced s j) = syncIndex s"
  "uniqueNodeCount (markDataAsSynced s j) = uniqueNodeCount s"
  "uniqueNodes (markDataAsSynced s j) = uniqueNodes s"
  "uniqueNodeArraySize (markDataAsSynced s j) = uniqueNodeArraySize s"
  "length (buffer (markDataAsSynced s j)) = length (buffer s)"
  by (simp_all add: markDataAsSynced_def)

lemma slotIndex_mark: "slotIndex (markDataAsSynced s j) i = slotIndex s i"
  by (simp add: slotIndex_def oldestIndex_def mark_frame)

lemma buffer_ok_mark: "buffer_ok s \<Longrightarrow> buffer_ok (markDataAsSynced s j)"
  by (simp add: buffer_ok_def mark_frame)

lemma mark_buffer_nth:
  assumes "k < length (buffer s)"
  shows "buffer (markDataAsSynced s j) ! k =
     (if 0 \<le> j \<and> j < 100 \<and> k = nat j then (buffer s ! k)\<lparr>synced := True\<rparr> else buffer s ! k)"
  using assms by (simp add: markDataAsSynced_def BUFFER_SIZE_def nth_list_update)

lemma view_mark_payload:
  assumes "buffer_ok s"
  shows "map (\<lambda>e. (data e, nodeId e)) (view (markDataAsSynced s j)) =
         map (\<lambda>e. (data e, nodeId e)) (view s)"
proof (rule nth_equalityI)
  show "length (map (\<lambda>e. (data e, nodeId e)) (view (markDataAsSynced s j))) =
        length (map (\<lambda>e. (data e, nodeId e)) (view s))"
    by (simp add: length_view mark_frame)
next
  fix i assume "i < length (map (\<lambda>e. (data e, nodeId e)) (view (markDataAsSynced s j)))"
  then have i: "i < nat (bufferCount s)" by (simp add: length_view mark_frame)
  then have i': "i < nat (bufferCount (markDataAsSynced s j))" by (simp add: mark_frame)
  have r: "0 \<le> slotIndex s i" "slotIndex s i < 100" using slotIndex_range[OF assms] by simp_all
  have k: "nat (slotIndex s i) < length (buffer s)" using r assms by (simp add: buffer_ok_def)
  show "map (\<lambda>e. (data e, nodeId e)) (view (markDataAsSynced s j)) ! i =
        map (\<lambda>e. (data e, nodeId e)) (view s) ! i"
    using i i' by (simp add: length_view view_nth slotIndex_mark mark_buffer_nth[OF k])
qed

lemma view_mark_slot:
  assumes "buffer_ok s" "i < nat (bufferCount s)"
  shows "view (markDataAsSynced s (slotIndex s i)) = (view s)[i := (view s ! i)\<lparr>synced := True\<rparr>]"
proof (rule nth_equalityI)
  show "length (view (markDataAsSynced s (slotIndex s i))) =
        length ((view s)[i := (view s ! i)\<lparr>synced := True\<rparr>])"
    by (simp add: length_view mark_frame)
next
  fix k assume "k < length (view (markDataAsSynced s (slotIndex s i)))"
  then have k: "k < nat (bufferCount s)" by (simp add: length_view mark_frame)
  then have k': "k < nat (bufferCount (markDataAsSynced s (slotIndex s i)))" by (simp add: mark_frame)
  have c: "bufferCount s \<le> 100" using assms(1) by (simp add: buffer_ok_def)
  have r: "0 \<le> slotIndex s k" "slotIndex s k < 100" "0 \<le> slotIndex s i" "slotIndex s i < 100"
    using slotIndex_range[OF assms(1)] by simp_all
  have kl: "nat (slotIndex s k) < length (buffer s)" using r assms by (simp add: buffer_ok_def)
  have eq: "nat (slotIndex s k) = nat (slotIndex s i) \<longleftrightarrow> k = i"
  proof
    assume "nat (slotIndex s k) = nat (slotIndex s i)"
    then have "slotIndex s k = slotIndex s i" using r by simp
    moreover have "k < 100" "i < 100" using k assms(2) c by simp_all
    ultimately show "k = i" using slotIndex_inj[OF assms(1)] by blast
  qed simp
  show "view (markDataAsSynced s (slotIndex s i)) ! k = (view s)[i := (view s ! i)\<lparr>synced := True\<rparr>] ! k"
    using k k' r eq
    by (simp add: view_nth slotIndex_mark mark_buffer_nth[OF kl] nth_list_update length_view)
qed

lemma find_upt_first:
  assumes "m < n" "P m" "\<forall>j<m. \<not> P j"
  shows "find P [0..<n] = Some m"
proof -
  have "\<exists>i<length [0..<n]. P ([0..<n] ! i) \<and> m = [0..<n] ! i \<and> (\<forall>j<i. \<not> P ([0..<n] ! j))"
    using assms by (intro exI[of _ m]) simp
  then show ?thesis by (simp only: find_Some_iff)
qed

lemma firstUnsynced_split:
  assumes "view s = A @ e # B" "\<forall>a\<in>set A. synced a" "\<not> synced e"
  shows "firstUnsynced (slots s) = Some (data e, nodeId e, slotIndex s (length A))"
proof -
  let ?f = "\<lambda>j. buffer s ! nat (slotIndex s j)"
  let ?n = "nat (bufferCount s)"
  have n: "?n = length A + Suc (length B)" using assms(1) length_view[of s] by simp
  have m: "length A < ?n" using n by simp
  have v: "\<And>j. j < ?n \<Longrightarrow> ?f j = view s ! j" by (simp add: view_nth)
  have fm: "?f (length A) = e" using v[OF m] assms(1) by simp
  have pre: "\<forall>j<length A. \<not> \<not> synced (?f j)"
  proof (intro allI impI)
    fix j assume j: "j < length A"
    then have "?f j = A ! j" using v[of j] m assms(1) by (simp add: nth_append)
    then show "\<not> \<not> synced (?f j)" using assms(2) j by simp
  qed
  have "find (\<lambda>j. \<not> synced (?f j)) [0..<?n] = Some (length A)"
    using m _ pre by (rule find_upt_first) (simp add: fm assms(3))
  then show ?thesis
    unfolding slots_def firstUnsynced_map by (simp add: fm)
qed

lemma firstUnsynced_none:
  assumes "\<forall>a\<in>set (view s). synced a"
  shows "firstUnsynced (slots s) = None"
proof -
  have "find (\<lambda>j. \<not> synced (buffer s ! nat (slotIndex s j))) [0..<nat (bufferCount s)] = None"
    using assms by (simp add: find_None_iff view_def)
  then show ?thesis unfolding slots_def firstUnsynced_map by simp
qed

lemma firstUnsynced_member:
  assumes "firstUnsynced (slots s) = Some (d, n, idx)"
  shows "\<exists>i<nat (bufferCount s). idx = slotIndex s i \<and> d = data (view s ! i) \<and> n = nodeId (view s ! i)
            \<and> \<not> synced (view s ! i) \<and> (\<forall>j<i. synced (view s ! j))"
proof -
  let ?f = "\<lambda>j. buffer s ! nat (slotIndex s j)"
  from assms obtain m where f: "find (\<lambda>j. \<not> synced (?f j)) [0..<nat (bufferCount s)] = Some m"
    and r: "(d, n, idx) = (data (?f m), nodeId (?f m), slotIndex s m)"
    unfolding slots_def firstUnsynced_map by auto
  from f have m: "m < nat (bufferCount s)" "\<not> synced (?f m)" "\<forall>j<m. synced (?f j)"
    by (auto simp: find_Some_iff)
  have "\<forall>j<m. synced (view s ! j)" using m(1,3) by (simp add: view_nth)
  then show ?thesis using m r by (intro exI[of _ m]) (simp add: view_nth)
qed

lemma drain_view:
  assumes "buffer_ok s" "view s = A @ map entryOf post" "\<forall>a\<in>set A. synced a"
    "length post \<le> fuel"
  shows "fst (drain fuel s) = post \<and> fst (getNextBufferedData (snd (drain fuel s))) = None"
  using assms
proof (induction post arbitrary: s A fuel)
  case Nil
  then have "firstUnsynced (slots s) = None" by (intro firstUnsynced_none) simp
  then have g: "getNextBufferedData s = (None, s)"
    using getNext_firstUnsynced[of s] getNext_state[of s] by (simp add: prod_eq_iff)
  show ?case by (cases fuel) (simp_all add: g)
next
  case (Cons p post)
  from Cons.prems(4) obtain f where fuel: "fuel = Suc f" and f: "length post \<le> f"
    by (cases fuel) simp_all
  let ?e = "entryOf p"
  have v: "view s = A @ ?e # map entryOf post" using Cons.prems(2) by simp
  have ne: "\<not> synced ?e" by (simp add: entryOf_def)
  have "firstUnsynced (slots s) = Some (data ?e, nodeId ?e, slotIndex s (length A))"
    using v Cons.prems(3) ne by (rule firstUnsynced_split)
  then have g: "getNextBufferedData s = (Some (fst p, snd p, slotIndex s (length A)), s)"
    using getNext_firstUnsynced[of s] getNext_state[of s] by (simp add: prod_eq_iff entryOf_def)
  let ?s' = "markDataAsSynced s (slotIndex s (length A))"
  have la: "length A < nat (bufferCount s)" using v length_view[of s] by simp
  have v': "view ?s' = (A @ [?e\<lparr>synced := True\<rparr>]) @ map entryOf post"
    unfolding view_mark_slot[OF Cons.prems(1) la] v by (simp add: list_update_append)
  have ok': "buffer_ok ?s'" using Cons.prems(1) by (rule buffer_ok_mark)
  have all': "\<forall>a\<in>set (A @ [?e\<lparr>synced := True\<rparr>]). synced a" using Cons.prems(3) by simp
  note IH = Cons.IH[OF ok' v' all' f]
  show ?case unfolding fuel using IH by (simp add: g split_beta)
qed

lemma buffer_ok_init: "buffer_ok (StateManager_init d0)"
  by (simp add: buffer_ok_def StateManager_init_def BUFFER_SIZE_def)

lemma view_init: "view (StateManager_init d0) = []"
  by (simp add: view_def StateManager_init_def)

lemma marks_payload:
  assumes "buffer_ok s"
  shows "buffer_ok (foldl markDataAsSynced s js) \<and>
         map (\<lambda>e. (data e, nodeId e)) (view (foldl markDataAsSynced s js)) =
         map (\<lambda>e. (data e, nodeId e)) (view s)"
  using assms
proof (induction js arbitrary: s)
  case Nil
  then show ?case by simp
next
  case (Cons j js)
  have ok: "buffer_ok (markDataAsSynced s j)" using Cons.prems by (rule buffer_ok_mark)
  show ?case using Cons.IH[OF ok] view_mark_payload[OF Cons.prems, of j] by simp
qed

lemma getNext_payload:
  assumes "fst (getNextBufferedData s) = Some (d, n, idx)"
  shows "(d, n) \<in> set (map (\<lambda>e. (data e, nodeId e)) (view s))"
proof -
  from assms have "firstUnsynced (slots s) = Some (d, n, idx)"
    by (simp only: getNext_firstUnsynced)
  then obtain i where i: "i < nat (bufferCount s)" "d = data (view s ! i)" "n = nodeId (view s ! i)"
    using firstUnsynced_member by blast
  then have "view s ! i \<in> set (view s)" by (simp add: length_view)
  then show ?thesis using i(2,3) by (auto simp: image_iff)
qed

lemma payload_entryOf: "map (\<lambda>e. (data e, nodeId e)) (map entryOf xs) = xs"
  by (induction xs) (simp_all add: entryOf_def)

lemma last_lastN: "xs \<noteq> [] \<Longrightarrow> 0 < n \<Longrightarrow> last (lastN n xs) = last xs"
  by (simp add: lastN_def)

lemma view_add_last:
  assumes "buffer_ok s"
  shows "last (view (addSensorData s d n)) = entryOf (d, n)"
  unfolding view_add[OF assms] by (simp add: last_lastN)

text \<open>
  C1.  Starting from any buffer within its bounds, after \<open>100 + k\<close> insertions the count
  is exactly 100 and the valid entries, oldest first, are the last 100 inserted, all
  unsynced: the \<open>i\<close>-th valid slot holds insertion number \<open>k + i\<close>.  Whatever slots are
  acknowledged afterwards, a scan of \<open>getNextBufferedData\<close> only ever returns one of
  those last 100 readings, so the first \<open>k\<close> insertions are out of reach.  Every insertion
  goes through: after each one the newest valid entry is the reading just inserted,
  whatever the count and whatever the overwritten slot held.
\<close>

theorem C1_overwrite_oldest:
  assumes "buffer_ok s" "length xs = 100 + k" "0 < k"
  shows "getBufferCount (insertAll s xs) = 100
     \<and> view (insertAll s xs) = map entryOf (drop k xs)
     \<and> (\<forall>js d n idx. fst (getNextBufferedData (foldl markDataAsSynced (insertAll s xs) js))
                         = Some (d, n, idx) \<longrightarrow> (d, n) \<in> set (drop k xs))
     \<and> (\<forall>j<length xs. last (view (insertAll s (take (Suc j) xs))) = entryOf (xs ! j))"
proof (intro conjI allI impI)
  show "getBufferCount (insertAll s xs) = 100"
    using assms(1,2) by (simp add: getBufferCount_def bufferCount_insertAll buffer_ok_def)
  show v: "view (insertAll s xs) = map entryOf (drop k xs)"
    using assms(1,2) by (rule view_overwrite)
  {
    fix js d n idx
    assume g: "fst (getNextBufferedData (foldl markDataAsSynced (insertAll s xs) js)) = Some (d, n, idx)"
    have ok: "buffer_ok (insertAll s xs)" using assms(1) by (rule buffer_ok_insertAll)
    have "(d, n) \<in> set (map (\<lambda>e. (data e, nodeId e)) (view (foldl markDataAsSynced (insertAll s xs) js)))"
      using g by (rule getNext_payload)
    then have "(d, n) \<in> set (map (\<lambda>e. (data e, nodeId e)) (view (insertAll s xs)))"
      using marks_payload[OF ok, of js] by simp
    then show "(d, n) \<in> set (drop k xs)"
      unfolding v payload_entryOf .
  }
  {
    fix j assume j: "j < length xs"
    have "insertAll s (take (Suc j) xs) =
          addSensorData (insertAll s (take j xs)) (fst (xs ! j)) (snd (xs ! j))"
      using j by (simp add: take_Suc_conv_app_nth insertAll_snoc)
    then show "last (view (insertAll s (take (Suc j) xs))) = entryOf (xs ! j)"
      using view_add_last[OF buffer_ok_insertAll[OF assms(1)], of "take j xs"] by simp
  }
qed

text \<open>
  C9.  \<open>getNextBufferedData\<close> returns the object as it found it, and asking again gives the
  same answer.
\<close>

theorem C9_getNext_pure:
  "snd (getNextBufferedData s) = s
   \<and> fst (getNextBufferedData (snd (getNextBufferedData s))) = fst (getNextBufferedData s)"
  by (simp add: getNext_state)

text \<open>
  C10.  An index outside \<open>0..99\<close> leaves the object as it is.  An index inside the array sets
  the synced flag of that slot and nothing else: the slot's reading and node identifier,
  every other slot, the write cursor, the count and the registry are as before.
\<close>

theorem C10_markDataAsSynced_frame:
  "(i < 0 \<or> i \<ge> 100 \<longrightarrow> markDataAsSynced s i = s)
   \<and> (0 \<le> i \<and> i < 100 \<and> length (buffer s) = 100 \<longrightarrow>
        nat i < length (buffer s)
      \<and> synced (buffer (markDataAsSynced s i) ! nat i)
      \<and> data (buffer (markDataAsSynced s i) ! nat i) = data (buffer s ! nat i)
      \<and> nodeId (buffer (markDataAsSynced s i) ! nat i) = nodeId (buffer s ! nat i)
      \<and> (\<forall>k<100. k \<noteq> nat i \<longrightarrow> buffer (markDataAsSynced s i) ! k = buffer s ! k)
      \<and> length (buffer (markDataAsSynced s i)) = 100
      \<and> writeIndex (markDataAsSynced s i) = writeIndex s
      \<and> bufferCount (markDataAsSynced s i) = bufferCount s
      \<and> syncIndex (markDataAsSynced s i) = syncIndex s
      \<and> uniqueNodeCount (markDataAsSynced s i) = uniqueNodeCount s
      \<and> uniqueNodes (markDataAsSynced s i) = uniqueNodes s
      \<and> uniqueNodeArraySize (markDataAsSynced s i) = uniqueNodeArraySize s)"
proof (intro conjI impI)
  assume "i < 0 \<or> i \<ge> 100"
  then show "markDataAsSynced s i = s" by (auto simp: markDataAsSynced_def BUFFER_SIZE_def)
next
  assume a: "0 \<le> i \<and> i < 100 \<and> length (buffer s) = 100"
  then have k: "nat i < length (buffer s)" by auto
  show "nat i < length (buffer s)" by (rule k)
  show "synced (buffer (markDataAsSynced s i) ! nat i)"
    using a by (simp add: mark_buffer_nth[OF k])
  show "data (buffer (markDataAsSynced s i) ! nat i) = data (buffer s ! nat i)"
    using a by (simp add: mark_buffer_nth[OF k])
  show "nodeId (buffer (markDataAsSynced s i) ! nat i) = nodeId (buffer s ! nat i)"
    using a by (simp add: mark_buffer_nth[OF k])
  show "\<forall>k<100. k \<noteq> nat i \<longrightarrow> buffer (markDataAsSynced s i) ! k = buffer s ! k"
    using a by (simp add: mark_buffer_nth)
  show "length (buffer (markDataAsSynced s i)) = 100" using a by (simp add: mark_frame)
qed (simp_all add: mark_frame)

theorem C1_overwrite_oldest_witness:
  "buffer_ok (StateManager_init (sampleReading 0))
   \<and> length (replicate 101 (sampleReading 5, ''node-01'')) = 100 + 1 \<and> (0::nat) < 1
   \<and> getBufferCount (insertAll (StateManager_init (sampleReading 0))
                        (replicate 101 (sampleReading 5, ''node-01''))) = 100
   \<and> view (insertAll (StateManager_init (sampleReading 0))
                        (replicate 101 (sampleReading 5, ''node-01'')))
       = map entryOf (drop 1 (replicate 101 (sampleReading 5, ''node-01'')))"
  using C1_overwrite_oldest[of "StateManager_init (sampleReading 0)"
          "replicate 101 (sampleReading 5, ''node-01'')" 1]
  by (simp add: buffer_ok_init)

theorem C10_markDataAsSynced_frame_witness:
  "((- 1 :: int) < 0 \<or> (- 1 :: int) \<ge> 100)
   \<and> markDataAsSynced (StateManager_init (sampleReading 0)) (- 1) = StateManager_init (sampleReading 0)
   \<and> ((0::int) \<le> 5 \<and> (5::int) < 100 \<and> length (buffer (StateManager_init (sampleReading 0))) = 100)
   \<and> synced (buffer (markDataAsSynced (StateManager_init (sampleReading 0)) 5) ! nat 5)
   \<and> bufferCount (markDataAsSynced (StateManager_init (sampleReading 0)) 5)
       = bufferCount (StateManager_init (sampleReading 0))"
  using C10_markDataAsSynced_frame[of "- 1" "StateManager_init (sampleReading 0)"]
    C10_markDataAsSynced_frame[of 5 "StateManager_init (sampleReading 0)"]
  by (simp add: StateManager_init_def BUFFER_SIZE_def)

text \<open>
  C2.  \<open>getNextBufferedData\<close> returns what the specification's drain returns: the first
  unsynced entry in scan order with its slot index (every valid entry before it is synced),
  and nothing when every valid entry is synced or the buffer is empty.  After at most 100 insertions into a fresh buffer,
  rounds of \<open>getNextBufferedData\<close> and \<open>markDataAsSynced\<close> acknowledge the readings in the
  order of their insertion; as many rounds as there were insertions acknowledge all of
  them, and then \<open>getNextBufferedData\<close> returns false.
\<close>

theorem C2_fifo_drain:
  assumes "length xs \<le> 100" "length xs \<le> fuel"
  shows "fst (getNextBufferedData s) = firstUnsynced (slots s)
     \<and> (fst (getNextBufferedData s) = Some (d, n, idx) \<longrightarrow>
          (\<exists>i<nat (bufferCount s). idx = slotIndex s i
              \<and> d = data (view s ! i) \<and> n = nodeId (view s ! i)
              \<and> \<not> synced (view s ! i) \<and> (\<forall>j<i. synced (view s ! j))))
     \<and> (bufferCount s = 0 \<or> (\<forall>e\<in>set (view s). synced e) \<longrightarrow> fst (getNextBufferedData s) = None)
     \<and> fst (drain fuel (insertAll (StateManager_init d0) xs)) = xs
     \<and> fst (getNextBufferedData (snd (drain fuel (insertAll (StateManager_init d0) xs)))) = None"
proof -
  let ?s = "insertAll (StateManager_init d0) xs"
  have ok: "buffer_ok ?s" using buffer_ok_init by (rule buffer_ok_insertAll)
  have "view ?s = lastN 100 (map entryOf xs)"
    using view_insertAll[OF buffer_ok_init, of d0 xs] by (simp add: view_init)
  then have v: "view ?s = [] @ map entryOf xs" using assms(1) by (simp add: lastN_def)
  have dr: "fst (drain fuel ?s) = xs \<and> fst (getNextBufferedData (snd (drain fuel ?s))) = None"
    using ok v _ assms(2) by (rule drain_view) simp
  have some: "fst (getNextBufferedData s) = Some (d, n, idx) \<longrightarrow>
          (\<exists>i<nat (bufferCount s). idx = slotIndex s i
              \<and> d = data (view s ! i) \<and> n = nodeId (view s ! i)
              \<and> \<not> synced (view s ! i) \<and> (\<forall>j<i. synced (view s ! j)))"
    unfolding getNext_firstUnsynced by (intro impI firstUnsynced_member)
  have none: "bufferCount s = 0 \<or> (\<forall>e\<in>set (view s). synced e) \<longrightarrow> fst (getNextBufferedData s) = None"
  proof
    assume "bufferCount s = 0 \<or> (\<forall>e\<in>set (view s). synced e)"
    then have "\<forall>e\<in>set (view s). synced e" by (auto simp: view_def)
    then show "fst (getNextBufferedData s) = None"
      unfolding getNext_firstUnsynced by (rule firstUnsynced_none)
  qed
  show ?thesis using dr some none by (simp add: getNext_firstUnsynced)
qed

theorem C2_fifo_drain_witness:
  "length [(sampleReading 10, ''node-01''), (sampleReading 20, ''node-02''),
           (sampleReading 30, ''node-01'')] \<le> 100
   \<and> length [(sampleReading 10, ''node-01''), (sampleReading 20, ''node-02''),
           (sampleReading 30, ''node-01'')] \<le> 3
   \<and> fst (drain 3 (insertAll (StateManager_init (sampleReading 0))
         [(sampleReading 10, ''node-01''), (sampleReading 20, ''node-02''),
          (sampleReading 30, ''node-01'')]))
       = [(sampleReading 10, ''node-01''), (sampleReading 20, ''node-02''),
          (sampleReading 30, ''node-01'')]"
  using C2_fifo_drain[where xs = "[(sampleReading 10, ''node-01''), (sampleReading 20, ''node-02''),
          (sampleReading 30, ''node-01'')]" and fuel = 3 and ?d0.0 = "sampleReading 0"]
  by simp

subsection \<open>The delivery client\<close>

lemma sendSensorData_unfold:
  "sendSensorData post c =
     (if performRequest (post 0) then (True, c\<lparr>backendReachable := True\<rparr>, [HttpPost])
      else if performRequest (post 1) then
        (True, c\<lparr>backendReachable := True\<rparr>, [HttpPost, Delay RETRY_DELAY, HttpPost])
      else if performRequest (post 2) then
        (True, c\<lparr>backendReachable := True\<rparr>,
         [HttpPost, Delay RETRY_DELAY, HttpPost, Delay RETRY_DELAY, HttpPost])
      else
        (False, c\<lparr>backendReachable := False\<rparr>,
         [HttpPost, Delay RETRY_DELAY, HttpPost, Delay RETRY_DELAY, HttpPost]))"
proof -
  have n: "nat 1 = 1" "nat 2 = 2" by simp_all
  have l3: "sendSensorData_loop post c 3 tr = (False, c\<lparr>backendReachable := False\<rparr>, tr)" for tr
    by (subst sendSensorData_loop.simps) (simp add: MAX_RETRIES_def)
  have l2: "sendSensorData_loop post c 2 tr =
      (if performRequest (post 2) then (True, c\<lparr>backendReachable := True\<rparr>, tr @ [HttpPost])
       else (False, c\<lparr>backendReachable := False\<rparr>, tr @ [HttpPost]))" for tr
    by (subst sendSensorData_loop.simps) (simp add: MAX_RETRIES_def l3)
  have l1: "sendSensorData_loop post c 1 tr =
      (if performRequest (post 1) then (True, c\<lparr>backendReachable := True\<rparr>, tr @ [HttpPost])
       else sendSensorData_loop post c 2 (tr @ [HttpPost, Delay RETRY_DELAY]))" for tr
    by (subst sendSensorData_loop.simps) (simp add: MAX_RETRIES_def)
  have l0: "sendSensorData_loop post c 0 tr =
      (if performRequest (post 0) then (True, c\<lparr>backendReachable := True\<rparr>, tr @ [HttpPost])
       else sendSensorData_loop post c 1 (tr @ [HttpPost, Delay RETRY_DELAY]))" for tr
    by (subst sendSensorData_loop.simps) (simp add: MAX_RETRIES_def)
  show ?thesis by (simp add: sendSensorData_def l0 l1 l2)
qed

text \<open>
  C3.  When every attempt fails, \<open>sendSensorData\<close> makes exactly three requests with a
  delay of 200 ms after the first and after the second, and returns false.  When the
  \<open>k\<close>-th attempt (\<open>k\<close> from 1 to 3) is the first to succeed, it makes exactly \<open>k\<close>
  requests, each but the last followed by the delay, and returns true.
\<close>

theorem C3_bounded_retry:
  "((\<forall>j<3. \<not> performRequest (post j)) \<longrightarrow>
        fst (sendSensorData post c) = False
      \<and> snd (snd (sendSensorData post c))
          = [HttpPost, Delay 200, HttpPost, Delay 200, HttpPost]
      \<and> attempts (snd (snd (sendSensorData post c))) = 3)
   \<and> (1 \<le> k \<and> k \<le> 3 \<and> (\<forall>j<k - 1. \<not> performRequest (post j)) \<and> performRequest (post (k - 1)) \<longrightarrow>
        fst (sendSensorData post c) = True
      \<and> snd (snd (sendSensorData post c))
          = concat (replicate (k - 1) [HttpPost, Delay 200]) @ [HttpPost]
      \<and> attempts (snd (snd (sendSensorData post c))) = k)"
proof (intro conjI impI)
  assume a: "\<forall>j<3. \<not> performRequest (post j)"
  have f0: "\<not> performRequest (post 0)" using a by (elim allE[of _ 0]) simp
  have f1: "\<not> performRequest (post 1)" using a by (elim allE[of _ 1]) (simp add: numeral_3_eq_3)
  have f2: "\<not> performRequest (post 2)" using a by (elim allE[of _ 2]) simp
  have f1': "\<not> performRequest (post (Suc 0))" using f1 by simp
  note f = f0 f1 f1' f2
  show "fst (sendSensorData post c) = False"
    by (simp add: sendSensorData_unfold f)
  show "snd (snd (sendSensorData post c)) = [HttpPost, Delay 200, HttpPost, Delay 200, HttpPost]"
    by (simp add: sendSensorData_unfold f RETRY_DELAY_def)
  show "attempts (snd (snd (sendSensorData post c))) = 3"
    by (simp add: sendSensorData_unfold f attempts_def)
next
  assume a: "1 \<le> k \<and> k \<le> 3 \<and> (\<forall>j<k - 1. \<not> performRequest (post j)) \<and> performRequest (post (k - 1))"
  then consider "k = 1" | "k = 2" | "k = 3" by linarith
  then have r: "sendSensorData post c =
      (True, c\<lparr>backendReachable := True\<rparr>, concat (replicate (k - 1) [HttpPost, Delay 200]) @ [HttpPost])"
  proof cases
    case 1
    then show ?thesis using a by (simp add: sendSensorData_unfold)
  next
    case 2
    then have "\<not> performRequest (post 0)" "performRequest (post 1)" using a by simp_all
    then show ?thesis using 2 by (simp add: sendSensorData_unfold RETRY_DELAY_def)
  next
    case 3
    then have "\<not> performRequest (post 0)" "\<not> performRequest (post 1)" "performRequest (post 2)"
      using a by (simp_all add: numeral_2_eq_2)
    then show ?thesis using 3
      by (simp add: sendSensorData_unfold RETRY_DELAY_def numeral_2_eq_2)
  qed
  show "fst (sendSensorData post c) = True" by (simp add: r)
  show "snd (snd (sendSensorData post c))
          = concat (replicate (k - 1) [HttpPost, Delay 200]) @ [HttpPost]" by (simp add: r)
  show "attempts (snd (snd (sendSensorData post c))) = k"
    using a by (simp add: r attempts_def filter_concat length_concat sum_list_replicate)
qed

theorem C3_bounded_retry_witness:
  "\<not> performRequest 500
   \<and> fst (sendSensorData (\<lambda>k::nat. 500::int) \<lparr>backendUrl = ''http://backend'', backendReachable = True,
                                        lastConnectivityCheck = 0\<rparr>) = False
   \<and> attempts (snd (snd (sendSensorData (\<lambda>k::nat. 500::int) \<lparr>backendUrl = ''http://backend'',
                     backendReachable = True, lastConnectivityCheck = 0\<rparr>))) = 3
   \<and> (1::nat) \<le> 2 \<and> (2::nat) \<le> 3
   \<and> \<not> performRequest ((\<lambda>k::nat. if k = 1 then 200 else (0::int)) 0)
   \<and> performRequest ((\<lambda>k::nat. if k = 1 then 200 else (0::int)) ((2::nat) - 1))
   \<and> fst (sendSensorData (\<lambda>k::nat. if k = 1 then 200 else (0::int)) \<lparr>backendUrl = ''http://backend'',
                     backendReachable = False, lastConnectivityCheck = 0\<rparr>) = True
   \<and> attempts (snd (snd (sendSensorData (\<lambda>k::nat. if k = 1 then 200 else (0::int))
                     \<lparr>backendUrl = ''http://backend'', backendReachable = False,
                       lastConnectivityCheck = 0\<rparr>))) = 2"
  using C3_bounded_retry[where post = "\<lambda>k::nat. 500::int" and k = 1
          and c = "\<lparr>backendUrl = ''http://backend'', backendReachable = True,
                    lastConnectivityCheck = 0\<rparr>"]
    C3_bounded_retry[where post = "\<lambda>k::nat. if k = 1 then 200 else (0::int)" and k = 2
          and c = "\<lparr>backendUrl = ''http://backend'', backendReachable = False,
                    lastConnectivityCheck = 0\<rparr>"]
  by (simp add: performRequest_def attempts_def)

text \<open>
  C4, as the code has it.  When the health probe is made, the cached flag is true exactly
  when the response code is 200.  A code of 200 also satisfies the criterion of
  \<open>performRequest\<close>, which accepts every code from 1 to 399; the two criteria differ on all
  the other codes of that range, for example 204.
\<close>

theorem C4_health_probe_only_200:
  assumes "probeMade c now"
  shows "(backendReachable (checkBackendConnectivity c now responseCode)
            \<longleftrightarrow> responseCode = 200)
     \<and> (backendReachable (checkBackendConnectivity c now responseCode)
            \<longrightarrow> performRequest responseCode)
     \<and> lastConnectivityCheck (checkBackendConnectivity c now responseCode) = now"
  using assms
  by (auto simp: checkBackendConnectivity_def probeMade_def performRequest_def Let_def)

theorem C4_health_probe_only_200_witness:
  "probeMade \<lparr>backendUrl = ''http://backend'', backendReachable = False,
               lastConnectivityCheck = 0\<rparr> 6000
   \<and> backendReachable (checkBackendConnectivity \<lparr>backendUrl = ''http://backend'',
        backendReachable = False, lastConnectivityCheck = 0\<rparr> 6000 200)
   \<and> performRequest 200"
  using C4_health_probe_only_200[of "\<lparr>backendUrl = ''http://backend'', backendReachable = False,
               lastConnectivityCheck = 0\<rparr>" 6000 200]
  by (simp add: probeMade_def CONNECTIVITY_CHECK_INTERVAL_def)

theorem C4_counterexample:
  "probeMade \<lparr>backendUrl = ''http://backend'', backendReachable = False,
               lastConnectivityCheck = 0\<rparr> 6000
   \<and> \<not> (backendReachable (checkBackendConnectivity \<lparr>backendUrl = ''http://backend'',
            backendReachable = False, lastConnectivityCheck = 0\<rparr> 6000 204)
          \<longleftrightarrow> (0 < (204::int) \<and> (204::int) < 400))
   \<and> performRequest 204"
  by (simp add: probeMade_def checkBackendConnectivity_def CONNECTIVITY_CHECK_INTERVAL_def
      performRequest_def Let_def)

subsection \<open>The connectivity state machine\<close>

lemma startAPMode_fields:
  "currentState (startAPMode s t) = AP_MODE"
  "internetAvailable (startAPMode s t) = False"
  "staConnectionInProgress (startAPMode s t) = False"
  "staSSID (startAPMode s t) = staSSID s"
  "wifiCalls (startAPMode s t) = wifiCalls s @ [WiFi_mode WIFI_AP_STA, WiFi_softAP AP_SSID AP_PASSWORD]"
  by (simp_all add: startAPMode_def transitionToState_def clearSSID_def Let_def)

text \<open>
  C8.  With no station credentials, \<open>begin\<close> called in \<open>INIT\<close> returns with the machine in
  \<open>AP_MODE\<close>: no connection attempt is marked in progress, the only driver calls made are
  the two mode switches and the start of the access point (no \<open>WiFi.begin\<close>), and
  later calls of \<open>update\<close> change nothing, whatever the clock and the driver report.
\<close>

theorem C8_begin_without_credentials:
  assumes "currentState s = INIT" "staSSID s = []"
  shows "currentState (begin_nm s clk) = AP_MODE
     \<and> \<not> staConnectionInProgress (begin_nm s clk)
     \<and> \<not> internetAvailable (begin_nm s clk)
     \<and> wifiCalls (begin_nm s clk)
         = wifiCalls s @ [WiFi_mode WIFI_STA, WiFi_mode WIFI_AP_STA, WiFi_softAP AP_SSID AP_PASSWORD]
     \<and> (\<forall>env. update (begin_nm s clk) env = begin_nm s clk)"
proof -
  have b: "begin_nm s clk =
       startAPMode (s\<lparr>wifiCalls := wifiCalls s @ [WiFi_mode WIFI_STA],
                       lastKnownMode := INIT, currentState := STA_CONNECTING,
                       lastStateTransitionTime := t_sta clk,
                       staConnectStartTime := t_start clk,
                       staConnectionInProgress := True\<rparr>) (t_ap clk)"
    using assms by (simp add: begin_nm_def attemptSTAConnection_def transitionToState_def Let_def)
  have u: "update (begin_nm s clk) env = begin_nm s clk" for env
    unfolding b using assms(2)
    by (simp add: update_def update_AP_MODE_def startAPMode_fields)
  show ?thesis using u unfolding b by (simp add: startAPMode_fields)
qed

theorem C8_begin_without_credentials_witness:
  "currentState GatewayNetworkManager_init = INIT \<and> staSSID GatewayNetworkManager_init = []
   \<and> currentState (begin_nm GatewayNetworkManager_init
        \<lparr>t_init = 5, t_sta = 5, t_start = 6, t_ap = 7\<rparr>) = AP_MODE
   \<and> \<not> staConnectionInProgress (begin_nm GatewayNetworkManager_init
        \<lparr>t_init = 5, t_sta = 5, t_start = 6, t_ap = 7\<rparr>)"
  using C8_begin_without_credentials[of GatewayNetworkManager_init
          "\<lparr>t_init = 5, t_sta = 5, t_start = 6, t_ap = 7\<rparr>"]
  by (simp add: GatewayNetworkManager_init_def)

lemma update_STA_not_connected:
  assumes "currentState s = STA_CONNECTING" "wifiStatus env \<noteq> WL_CONNECTED"
  shows "update s env =
     (if 10000 < unat (currentTime env - staConnectStartTime s)
      then (startAPMode s (transitionTime env))\<lparr>staConnectionInProgress := False\<rparr>
      else s)"
  using assms
  by (simp add: update_def update_STA_CONNECTING_def STA_CONNECT_TIMEOUT_def word_less_nat_alt Let_def)

lemma update_AP_not_connected:
  assumes "currentState s = AP_MODE" "wifiStatus env \<noteq> WL_CONNECTED"
  shows "currentState (update s env) = AP_MODE
       \<and> internetAvailable (update s env) = internetAvailable s"
  using assms by (simp add: update_def update_AP_MODE_def Let_def)

lemma run_Nil: "run s [] = s"
  by (simp add: run_def)

lemma run_Cons: "run s (e # es) = run (update s e) es"
  by (simp add: run_def)

lemma run_AP_not_connected:
  assumes "currentState s = AP_MODE" "\<forall>e\<in>set envs. wifiStatus e \<noteq> WL_CONNECTED"
  shows "currentState (run s envs) = AP_MODE
       \<and> internetAvailable (run s envs) = internetAvailable s"
  using assms
proof (induction envs arbitrary: s)
  case Nil
  then show ?case by (simp add: run_Nil)
next
  case (Cons e es)
  have u: "currentState (update s e) = AP_MODE" "internetAvailable (update s e) = internetAvailable s"
    using update_AP_not_connected[OF Cons.prems(1), of e] Cons.prems(2) by simp_all
  show ?case using Cons.IH[OF u(1)] Cons.prems(2) u(2) by (simp add: run_Cons)
qed

lemma run_STA_not_connected:
  assumes "currentState s = STA_CONNECTING" "\<forall>e\<in>set envs. wifiStatus e \<noteq> WL_CONNECTED"
  shows "(if \<exists>e\<in>set envs. 10000 < unat (currentTime e - staConnectStartTime s)
          then currentState (run s envs) = AP_MODE \<and> \<not> internetAvailable (run s envs)
          else run s envs = s)"
  using assms
proof (induction envs arbitrary: s)
  case Nil
  then show ?case by (simp add: run_Nil)
next
  case (Cons e es)
  have ne: "wifiStatus e \<noteq> WL_CONNECTED" and nes: "\<forall>e\<in>set es. wifiStatus e \<noteq> WL_CONNECTED"
    using Cons.prems(2) by simp_all
  note u = update_STA_not_connected[OF Cons.prems(1) ne]
  show ?case
  proof (cases "10000 < unat (currentTime e - staConnectStartTime s)")
    case True
    let ?s' = "update s e"
    have ap: "currentState ?s' = AP_MODE" "\<not> internetAvailable ?s'"
      using True by (simp_all add: u startAPMode_fields)
    show ?thesis
      using run_AP_not_connected[OF ap(1) nes] ap(2) True by (simp add: run_Cons)
  next
    case False
    then have "update s e = s" by (simp add: u)
    then show ?thesis using Cons.IH[OF Cons.prems(1) nes] False by (simp add: run_Cons)
  qed
qed

text \<open>
  C6.  A machine in \<open>STA_CONNECTING\<close> whose driver never reports \<open>WL_CONNECTED\<close> is in
  \<open>AP_MODE\<close> after a run of \<open>update\<close> calls exactly when one of the calls read a clock more
  than 10000 ms past the start of the attempt; so the transition never happens before
  10000 ms have elapsed, and the first call after that makes it.  In \<open>AP_MODE\<close> the
  internet-reachable flag is false.  Until then the calls leave the object unchanged.
  \<open>begin\<close> with credentials is how the machine gets there: it returns in
  \<open>STA_CONNECTING\<close> with the attempt start it has read from the clock.
\<close>

theorem C6_sta_timeout:
  assumes "currentState s = STA_CONNECTING" "\<forall>e\<in>set envs. wifiStatus e \<noteq> WL_CONNECTED"
  shows "(currentState (run s envs) = AP_MODE
            \<longleftrightarrow> (\<exists>e\<in>set envs. 10000 < unat (currentTime e - staConnectStartTime s)))
     \<and> (currentState (run s envs) = AP_MODE
            \<longrightarrow> (\<exists>e\<in>set envs. 10000 \<le> unat (currentTime e - staConnectStartTime s))
              \<and> \<not> internetAvailable (run s envs))
     \<and> (currentState (run s envs) \<noteq> AP_MODE \<longrightarrow> run s envs = s)
     \<and> (staSSID s0 \<noteq> [] \<longrightarrow> currentState (begin_nm s0 clk) = STA_CONNECTING
            \<and> staConnectStartTime (begin_nm s0 clk) = t_start clk)"
proof -
  note r = run_STA_not_connected[OF assms]
  show ?thesis
  proof (cases "\<exists>e\<in>set envs. 10000 < unat (currentTime e - staConnectStartTime s)")
    case True
    then have a: "currentState (run s envs) = AP_MODE" "\<not> internetAvailable (run s envs)"
      using r by simp_all
    from True have "\<exists>e\<in>set envs. 10000 \<le> unat (currentTime e - staConnectStartTime s)"
      by (meson less_imp_le)
    then show ?thesis using a True
      by (simp add: begin_nm_def attemptSTAConnection_def transitionToState_def clearSSID_def Let_def)
  next
    case False
    then have "run s envs = s" using r by simp
    then show ?thesis using False assms(1)
      by (simp add: begin_nm_def attemptSTAConnection_def transitionToState_def clearSSID_def Let_def)
  qed
qed

lemma sampleConnecting_fields:
  "currentState sampleConnecting = STA_CONNECTING"
  "staConnectStartTime sampleConnecting = 1000"
  by (simp_all add: sampleConnecting_def begin_nm_def setCredentials_def
      GatewayNetworkManager_init_def attemptSTAConnection_def transitionToState_def
      clearSSID_def Let_def)

theorem C6_sta_timeout_witness:
  "currentState sampleConnecting = STA_CONNECTING
   \<and> wifiStatus (sampleEnv 5000 WL_DISCONNECTED) \<noteq> WL_CONNECTED
   \<and> wifiStatus (sampleEnv 11001 WL_DISCONNECTED) \<noteq> WL_CONNECTED
   \<and> 10000 < unat (currentTime (sampleEnv 11001 WL_DISCONNECTED)
                        - staConnectStartTime sampleConnecting)
   \<and> currentState (run sampleConnecting
          [sampleEnv 5000 WL_DISCONNECTED, sampleEnv 11001 WL_DISCONNECTED]) = AP_MODE
   \<and> \<not> internetAvailable (run sampleConnecting
          [sampleEnv 5000 WL_DISCONNECTED, sampleEnv 11001 WL_DISCONNECTED])
   \<and> currentState (run sampleConnecting [sampleEnv 5000 WL_DISCONNECTED]) \<noteq> AP_MODE
   \<and> run sampleConnecting [sampleEnv 5000 WL_DISCONNECTED] = sampleConnecting
   \<and> staSSID (setCredentials GatewayNetworkManager_init ''greenhouse'' ''secret'') \<noteq> []
   \<and> currentState (begin_nm (setCredentials GatewayNetworkManager_init ''greenhouse'' ''secret'')
          \<lparr>t_init = 1000, t_sta = 1000, t_start = 1000, t_ap = 1000\<rparr>) = STA_CONNECTING"
  using C6_sta_timeout[where s = sampleConnecting
          and envs = "[sampleEnv 5000 WL_DISCONNECTED, sampleEnv 11001 WL_DISCONNECTED]"
          and ?s0.0 = "setCredentials GatewayNetworkManager_init ''greenhouse'' ''secret''"
          and clk = "\<lparr>t_init = 1000, t_sta = 1000, t_start = 1000, t_ap = 1000\<rparr>"]
    C6_sta_timeout[where s = sampleConnecting
          and envs = "[sampleEnv 5000 WL_DISCONNECTED]"
          and ?s0.0 = "setCredentials GatewayNetworkManager_init ''greenhouse'' ''secret''"
          and clk = "\<lparr>t_init = 1000, t_sta = 1000, t_start = 1000, t_ap = 1000\<rparr>"]
  by (simp add: sampleConnecting_fields sampleEnv_def setCredentials_def)

subsection \<open>The unique node registry\<close>

lemma length_registry:
  "length (uniqueNodes s) = 20 \<Longrightarrow> 0 \<le> uniqueNodeArraySize s \<Longrightarrow> uniqueNodeArraySize s \<le> 20
     \<Longrightarrow> length (registry s) = nat (uniqueNodeArraySize s)"
  by (simp add: registry_def)

lemma isNodeUnique_loop_eq:
  assumes "length (uniqueNodes s) = 20" "uniqueNodeArraySize s \<le> 20" "0 \<le> i"
  shows "isNodeUnique_loop s n i = (n \<notin> set (drop (nat i) (registry s)))"
  using assms
proof (induction s n i rule: isNodeUnique_loop.induct)
  case (1 s n i)
  show ?case
  proof (cases "i < uniqueNodeArraySize s")
    case True
    have il: "nat i < length (registry s)"
      using True "1.prems" by (simp add: registry_def)
    have d: "drop (nat i) (registry s) = uniqueNodes s ! nat i # drop (nat (i + 1)) (registry s)"
      using Cons_nth_drop_Suc[OF il, symmetric] True "1.prems"
      by (simp add: registry_def nat_add_distrib)
    show ?thesis
    proof (cases "uniqueNodes s ! nat i = n")
      case e: True
      then show ?thesis using True
        by (subst isNodeUnique_loop.simps) (simp add: d)
    next
      case ne: False
      have "isNodeUnique_loop s n (i + 1) = (n \<notin> set (drop (nat (i + 1)) (registry s)))"
        using "1.IH"[OF True ne] "1.prems" by simp
      then show ?thesis using True ne
        by (subst isNodeUnique_loop.simps) (auto simp: d)
    qed
  next
    case False
    then have "drop (nat i) (registry s) = []"
      using "1.prems" by (simp add: registry_def)
    then show ?thesis using False
      by (subst isNodeUnique_loop.simps) simp
  qed
qed

lemma recount_loop_eq:
  assumes "length (uniqueNodes s) = 20" "uniqueNodeArraySize s \<le> 20" "0 \<le> i"
  shows "recount_loop s i c =
         c + int (length (filter (\<lambda>n. \<not> isGatewayId n) (drop (nat i) (registry s))))"
  using assms
proof (induction s i c rule: recount_loop.induct)
  case (1 s i c)
  show ?case
  proof (cases "i < uniqueNodeArraySize s")
    case True
    have il: "nat i < length (registry s)"
      using True "1.prems" by (simp add: registry_def)
    have d: "drop (nat i) (registry s) = uniqueNodes s ! nat i # drop (nat (i + 1)) (registry s)"
      using Cons_nth_drop_Suc[OF il, symmetric] True "1.prems"
      by (simp add: registry_def nat_add_distrib)
    show ?thesis
    proof (cases "isGatewayId (uniqueNodes s ! nat i)")
      case g: True
      have "recount_loop s (i + 1) c =
          c + int (length (filter (\<lambda>n. \<not> isGatewayId n) (drop (nat (i + 1)) (registry s))))"
        using "1.IH"(2)[OF True] g "1.prems" by simp
      then show ?thesis using True g
        by (subst recount_loop.simps) (simp add: d)
    next
      case ng: False
      have "recount_loop s (i + 1) (c + 1) =
          c + 1 + int (length (filter (\<lambda>n. \<not> isGatewayId n) (drop (nat (i + 1)) (registry s))))"
        using "1.IH"(1)[OF True ng] "1.prems" by simp
      then show ?thesis using True ng
        by (subst recount_loop.simps) (simp add: d)
    qed
  next
    case False
    then have "drop (nat i) (registry s) = []"
      using "1.prems" by (simp add: registry_def)
    then show ?thesis using False
      by (subst recount_loop.simps) simp
  qed
qed

lemma registry_buffer_update: "registry (s\<lparr>buffer := b\<rparr>) = registry s"
  by (simp add: registry_def)

lemma registry_ok_buffer_update: "registry_ok (s\<lparr>buffer := b\<rparr>) = registry_ok s"
  by (simp add: registry_ok_def registry_def)

lemma registry_addUniqueNode:
  assumes "registry_ok s" "\<not> isGatewayId n" "n \<notin> set (registry s)" "uniqueNodeArraySize s < 20"
  shows "registry (addUniqueNode s n) = registry s @ [n]"
    and "registry_ok (addUniqueNode s n)"
proof -
  have b: "length (uniqueNodes s) = 20" "0 \<le> uniqueNodeArraySize s"
    and dist: "distinct (registry s)" and ng: "list_all (\<lambda>n. \<not> isGatewayId n) (registry s)"
    using assms(1) by (simp_all add: registry_ok_def)
  let ?k = "nat (uniqueNodeArraySize s)"
  have k: "?k < length (uniqueNodes s)" using b assms(4) by simp
  have t: "take (nat (uniqueNodeArraySize s + 1)) ((uniqueNodes s)[?k := n]) = take ?k (uniqueNodes s) @ [n]"
  proof -
    have "nat (uniqueNodeArraySize s + 1) = Suc ?k" using b by (simp add: nat_add_distrib)
    then show ?thesis using k by (simp add: take_Suc_conv_app_nth)
  qed
  let ?s2 = "s\<lparr>uniqueNodes := (uniqueNodes s)[?k := n], uniqueNodeArraySize := uniqueNodeArraySize s + 1\<rparr>"
  have r2: "registry ?s2 = registry s @ [n]" using t by (simp add: registry_def)
  have "recount_loop ?s2 0 0 = int (length (filter (\<lambda>n. \<not> isGatewayId n) (registry ?s2)))"
    using b assms(4) by (subst recount_loop_eq) simp_all
  also have "\<dots> = int (length (registry s @ [n]))"
    unfolding r2 using ng assms(2) by (simp add: list_all_iff)
  finally have rc: "recount_loop ?s2 0 0 = int (length (registry s @ [n]))" .
  have a: "addUniqueNode s n = ?s2\<lparr>uniqueNodeCount := recount_loop ?s2 0 0\<rparr>"
    using assms(2,4) by (simp add: addUniqueNode_def Let_def)
  have r: "registry (addUniqueNode s n) = registry s @ [n]"
    unfolding a using r2 by (simp add: registry_def)
  show "registry (addUniqueNode s n) = registry s @ [n]" by (rule r)
  show "registry_ok (addUniqueNode s n)"
    unfolding registry_ok_def r using b assms(2,3,4) dist ng
    by (simp add: a rc)
qed

lemma registry_add:
  assumes "registry_ok s"
  shows "registry (addSensorData s d n) =
           (if \<not> isGatewayId n \<and> n \<notin> set (registry s) \<and> length (registry s) < 20
            then registry s @ [n] else registry s)"
    and "registry_ok (addSensorData s d n)"
    and "uniqueNodeCount (addSensorData s d n) = int (length (registry (addSensorData s d n)))"
proof -
  let ?s1 = "s\<lparr>buffer := (buffer s)[nat (writeIndex s) := \<lparr>data = d, nodeId = n, synced = False\<rparr>]\<rparr>"
  have ok1: "registry_ok ?s1" using assms by (simp add: registry_ok_buffer_update)
  have b: "length (uniqueNodes s) = 20" "0 \<le> uniqueNodeArraySize s" "uniqueNodeArraySize s \<le> 20"
    using assms by (simp_all add: registry_ok_def)
  have len: "length (registry s) = nat (uniqueNodeArraySize s)" using b by (rule length_registry)
  have uq: "isNodeUnique ?s1 n = (n \<notin> set (registry s))"
    unfolding isNodeUnique_def using b by (subst isNodeUnique_loop_eq) (simp_all add: registry_def)
  let ?s2 = "if \<not> isGatewayId n then (if isNodeUnique ?s1 n then addUniqueNode ?s1 n else ?s1) else ?s1"
  have reg: "registry (addSensorData s d n) = registry ?s2"
    "uniqueNodeCount (addSensorData s d n) = uniqueNodeCount ?s2"
    "registry_ok (addSensorData s d n) = registry_ok ?s2"
    by (simp_all add: addSensorData_def Let_def registry_def registry_ok_def)
  show r: "registry (addSensorData s d n) =
           (if \<not> isGatewayId n \<and> n \<notin> set (registry s) \<and> length (registry s) < 20
            then registry s @ [n] else registry s)"
  proof (cases "\<not> isGatewayId n \<and> n \<notin> set (registry s)")
    case True
    show ?thesis
    proof (cases "uniqueNodeArraySize s < 20")
      case lt: True
      have "registry (addUniqueNode ?s1 n) = registry ?s1 @ [n]"
        using ok1 True lt by (intro registry_addUniqueNode) (simp_all add: registry_buffer_update)
      then show ?thesis using True lt b
        by (simp add: reg uq len registry_buffer_update)
    next
      case ge: False
      then have "addUniqueNode ?s1 n = ?s1" by (simp add: addUniqueNode_def)
      then show ?thesis using True ge b
        by (simp add: reg uq len registry_buffer_update)
    qed
  next
    case False
    then show ?thesis by (auto simp: reg uq registry_buffer_update)
  qed
  show ok: "registry_ok (addSensorData s d n)"
  proof (cases "\<not> isGatewayId n \<and> n \<notin> set (registry s) \<and> uniqueNodeArraySize s < 20")
    case True
    then have "registry_ok (addUniqueNode ?s1 n)"
      using ok1 by (intro registry_addUniqueNode) (simp_all add: registry_buffer_update)
    then show ?thesis using True by (simp add: reg uq)
  next
    case False
    then have "?s2 = ?s1" by (auto simp: uq addUniqueNode_def)
    then show ?thesis using ok1 by (simp only: reg)
  qed
  show "uniqueNodeCount (addSensorData s d n) = int (length (registry (addSensorData s d n)))"
    using ok by (simp add: registry_ok_def)
qed

lemma registry_ok_insertAll: "registry_ok s \<Longrightarrow> registry_ok (insertAll s xs)"
  by (induction xs arbitrary: s) (simp_all add: insertAll_Nil insertAll_Cons registry_add(2))

lemma registry_ok_init: "registry_ok (StateManager_init d0)"
  by (simp add: registry_ok_def registry_def StateManager_init_def)

lemma registry_init: "registry (StateManager_init d0) = []"
  by (simp add: registry_def StateManager_init_def)

lemma registry_len_20: "registry_ok s \<Longrightarrow> length (registry s) \<le> 20"
  by (simp add: registry_ok_def registry_def)

text \<open>Once registered an identifier stays, and a full registry stays full.\<close>

lemma registry_add_keeps:
  assumes "registry_ok s" "n \<in> set (registry s) \<or> length (registry s) = 20"
  shows "n \<in> set (registry (addSensorData s d m)) \<or> length (registry (addSensorData s d m)) = 20"
  using assms(2) by (auto simp: registry_add(1)[OF assms(1)])

lemma registry_add_new:
  assumes "registry_ok s" "\<not> isGatewayId n"
  shows "n \<in> set (registry (addSensorData s d n)) \<or> length (registry (addSensorData s d n)) = 20"
  using registry_len_20[OF assms(1)] assms(2) by (auto simp: registry_add(1)[OF assms(1)])

lemma registry_insertAll_keeps:
  assumes "registry_ok s" "n \<in> set (registry s) \<or> length (registry s) = 20"
  shows "n \<in> set (registry (insertAll s xs)) \<or> length (registry (insertAll s xs)) = 20"
  using assms
proof (induction xs arbitrary: s)
  case Nil
  then show ?case by (simp add: insertAll_Nil)
next
  case (Cons x xs)
  show ?case unfolding insertAll_Cons
    using Cons.prems by (intro Cons.IH registry_add(2) registry_add_keeps)
qed

lemma registry_insertAll_member:
  assumes "registry_ok s" "n \<in> set (registry s)"
  shows "n \<in> set (registry (insertAll s xs))"
  using assms
proof (induction xs arbitrary: s)
  case Nil
  then show ?case by (simp add: insertAll_Nil)
next
  case (Cons x xs)
  have "n \<in> set (registry (addSensorData s (fst x) (snd x)))"
    using Cons.prems(2) by (auto simp: registry_add(1)[OF Cons.prems(1)])
  then show ?case unfolding insertAll_Cons
    using Cons.prems(1) by (intro Cons.IH registry_add(2))
qed

lemma registry_insertAll_seen:
  assumes "registry_ok s" "n \<in> snd ` set xs" "\<not> isGatewayId n"
  shows "n \<in> set (registry (insertAll s xs)) \<or> length (registry (insertAll s xs)) = 20"
  using assms(1,2)
proof (induction xs arbitrary: s)
  case Nil
  then show ?case by simp
next
  case (Cons x xs)
  let ?s' = "addSensorData s (fst x) (snd x)"
  have ok': "registry_ok ?s'" using Cons.prems(1) by (rule registry_add(2))
  show ?case
  proof (cases "n = snd x")
    case True
    have "n \<in> set (registry ?s') \<or> length (registry ?s') = 20"
      unfolding True using Cons.prems(1) assms(3) True by (intro registry_add_new) simp_all
    then show ?thesis unfolding insertAll_Cons using ok' by (intro registry_insertAll_keeps)
  next
    case False
    then have "n \<in> snd ` set xs" using Cons.prems(2) by auto
    then show ?thesis unfolding insertAll_Cons using ok' by (intro Cons.IH)
  qed
qed

lemma count_list_distinct: "distinct xs \<Longrightarrow> count_list xs x = (if x \<in> set xs then 1 else 0)"
  by (induction xs) auto

text \<open>
  C7.  From any registry within its bounds (the fresh one included), after any sequence of
  insertions the registry lists each identifier at most once, holds at most 20 and no
  identifier of the gateway namespace, and \<open>uniqueNodeCount\<close> is its length.  Every
  non-gateway identifier that was inserted is listed exactly once, unless the registry was
  full when it arrived, in which case it is absent and the registry still holds 20.
  Inserting one non-gateway identifier any number of times (at least once) into a registry
  with room lists it exactly once.  An insertion under a gateway identifier, and any
  insertion into a registry that holds 20, leaves registry and counter as they were.
\<close>

theorem C7_registry_dedup:
  assumes "registry_ok s"
  shows "distinct (registry (insertAll s xs))
     \<and> length (registry (insertAll s xs)) \<le> 20
     \<and> list_all (\<lambda>m. \<not> isGatewayId m) (registry (insertAll s xs))
     \<and> uniqueNodeCount (insertAll s xs) = int (length (registry (insertAll s xs)))
     \<and> (n \<in> snd ` set xs \<and> \<not> isGatewayId n \<longrightarrow>
          count_list (registry (insertAll s xs)) n = 1
          \<or> (count_list (registry (insertAll s xs)) n = 0 \<and> length (registry (insertAll s xs)) = 20))
     \<and> (ds \<noteq> [] \<and> \<not> isGatewayId n \<and> length (registry s) < 20 \<longrightarrow>
          count_list (registry (insertAll s (map (\<lambda>d. (d, n)) ds))) n = 1)
     \<and> (isGatewayId g \<longrightarrow> registry (addSensorData s d g) = registry s
          \<and> uniqueNodeCount (addSensorData s d g) = uniqueNodeCount s)
     \<and> (length (registry s) = 20 \<longrightarrow> registry (addSensorData s d m) = registry s
          \<and> uniqueNodeCount (addSensorData s d m) = uniqueNodeCount s)"
proof (intro conjI impI)
  have ok: "registry_ok (insertAll s xs)" using assms by (rule registry_ok_insertAll)
  show dist: "distinct (registry (insertAll s xs))" using ok by (simp add: registry_ok_def)
  show "length (registry (insertAll s xs)) \<le> 20" using ok by (rule registry_len_20)
  show "list_all (\<lambda>m. \<not> isGatewayId m) (registry (insertAll s xs))"
    using ok by (simp add: registry_ok_def)
  show "uniqueNodeCount (insertAll s xs) = int (length (registry (insertAll s xs)))"
    using ok by (simp add: registry_ok_def)
  {
    assume a: "n \<in> snd ` set xs \<and> \<not> isGatewayId n"
    then have "n \<in> set (registry (insertAll s xs)) \<or> length (registry (insertAll s xs)) = 20"
      using assms by (intro registry_insertAll_seen) simp_all
    then show "count_list (registry (insertAll s xs)) n = 1
          \<or> (count_list (registry (insertAll s xs)) n = 0 \<and> length (registry (insertAll s xs)) = 20)"
      by (auto simp: count_list_distinct[OF dist])
  }
  {
    assume a: "ds \<noteq> [] \<and> \<not> isGatewayId n \<and> length (registry s) < 20"
    then obtain d0 ds' where ds: "ds = d0 # ds'" by (cases ds) auto
    let ?s1 = "addSensorData s d0 n"
    have ok1: "registry_ok ?s1" using assms by (rule registry_add(2))
    have "n \<in> set (registry ?s1)" using a by (auto simp: registry_add(1)[OF assms])
    then have "n \<in> set (registry (insertAll ?s1 (map (\<lambda>d. (d, n)) ds')))"
      using ok1 by (intro registry_insertAll_member)
    moreover have "distinct (registry (insertAll ?s1 (map (\<lambda>d. (d, n)) ds')))"
      using registry_ok_insertAll[OF ok1] by (simp add: registry_ok_def)
    ultimately show "count_list (registry (insertAll s (map (\<lambda>d. (d, n)) ds))) n = 1"
      by (simp add: ds insertAll_Cons count_list_distinct)
  }
  {
    assume "isGatewayId g"
    then have r: "registry (addSensorData s d g) = registry s"
      by (simp add: registry_add(1)[OF assms])
    show "registry (addSensorData s d g) = registry s" by (rule r)
    show "uniqueNodeCount (addSensorData s d g) = uniqueNodeCount s"
      using registry_add(3)[OF assms, of d g] assms by (simp add: r registry_ok_def)
  }
  {
    assume "length (registry s) = 20"
    then have r: "registry (addSensorData s d m) = registry s"
      by (simp add: registry_add(1)[OF assms])
    show "registry (addSensorData s d m) = registry s" by (rule r)
    show "uniqueNodeCount (addSensorData s d m) = uniqueNodeCount s"
      using registry_add(3)[OF assms, of d m] assms by (simp add: r registry_ok_def)
  }
qed

lemma sampleFullRegistry_ok:
  "registry_ok sampleFullRegistry" "length (registry sampleFullRegistry) = 20"
  by (simp_all add: registry_ok_def registry_def sampleFullRegistry_def StateManager_init_def
      isGatewayId_def startsWith_def)

lemma isGatewayId_samples:
  "\<not> isGatewayId ''node-01''" "\<not> isGatewayId ''node-21''" "isGatewayId ''gateway-01''"
  "isGatewayId ''gateway-02''"
  by (simp_all add: isGatewayId_def startsWith_def)

theorem C7_registry_dedup_witness:
  "registry_ok (StateManager_init (sampleReading 0))
   \<and> (''node-01'' \<in> snd ` set [(sampleReading 10, ''node-01''), (sampleReading 20, ''gateway-01''),
                                 (sampleReading 30, ''node-01'')] \<and> \<not> isGatewayId ''node-01'')
   \<and> ([sampleReading 10, sampleReading 20, sampleReading 30] \<noteq> [] \<and> \<not> isGatewayId ''node-01''
        \<and> length (registry (StateManager_init (sampleReading 0))) < 20)
   \<and> count_list (registry (insertAll (StateManager_init (sampleReading 0))
        (map (\<lambda>d. (d, ''node-01'')) [sampleReading 10, sampleReading 20, sampleReading 30])))
        ''node-01'' = 1
   \<and> isGatewayId ''gateway-02''
   \<and> registry (addSensorData (StateManager_init (sampleReading 0)) (sampleReading 10) ''gateway-02'')
       = registry (StateManager_init (sampleReading 0))
   \<and> registry_ok sampleFullRegistry \<and> length (registry sampleFullRegistry) = 20
   \<and> registry (addSensorData sampleFullRegistry (sampleReading 10) ''node-21'')
       = registry sampleFullRegistry"
  using C7_registry_dedup[where s = "StateManager_init (sampleReading 0)"
          and xs = "[(sampleReading 10, ''node-01''), (sampleReading 20, ''gateway-01''),
                     (sampleReading 30, ''node-01'')]"
          and n = "''node-01''" and ds = "[sampleReading 10, sampleReading 20, sampleReading 30]"
          and g = "''gateway-02''" and d = "sampleReading 10" and m = "''node-21''"]
    C7_registry_dedup[where s = sampleFullRegistry and xs = "[]"
          and n = "''node-01''" and ds = "[]"
          and g = "''gateway-02''" and d = "sampleReading 10" and m = "''node-21''"]
  by (simp add: registry_ok_init registry_init sampleFullRegistry_ok isGatewayId_samples)

subsection \<open>Active nodes\<close>













end
